theory Spec2Isabelle
  imports Main
begin

section \<open>Python strings\<close>

text \<open>
  The script works on Python \<^verbatim>\<open>str\<close> values. A text is modelled as a
  \<^typ>\<open>string\<close>, one \<^typ>\<open>char\<close> per character, read as the code points
  0..255 (ASCII and Latin-1). On that range \<^verbatim>\<open>str.isspace\<close> holds for the code
  points 9..13, 28..32, 133 and 160, and \<^verbatim>\<open>str.lower\<close> adds 32 to
  65..90 and to 192..222 except 215.
\<close>

definition isspace :: "char \<Rightarrow> bool" where
  "isspace c =
     (let n = (of_char c :: nat)
      in (9 \<le> n \<and> n \<le> 13) \<or> (28 \<le> n \<and> n \<le> 32) \<or> n = 133 \<or> n = 160)"

text \<open>\<^verbatim>\<open>s.strip()\<close>: leading and trailing whitespace removed.\<close>

definition strip :: "string \<Rightarrow> string" where
  "strip s = rev (dropWhile isspace (rev (dropWhile isspace s)))"

definition lower_char :: "char \<Rightarrow> char" where
  "lower_char c =
     (let n = (of_char c :: nat)
      in if (65 \<le> n \<and> n \<le> 90) \<or> (192 \<le> n \<and> n \<le> 222 \<and> n \<noteq> 215)
         then char_of (n + 32) else c)"

text \<open>\<^verbatim>\<open>s.lower()\<close>\<close>

definition lower :: "string \<Rightarrow> string" where
  "lower s = map lower_char s"

text \<open>
  \<^verbatim>\<open>s.rfind(c)\<close> for a one-character needle: the highest index of \<open>c\<close> in
  \<open>s\<close>, or -1 when \<open>c\<close> does not occur.
\<close>

primrec rfind :: "string \<Rightarrow> char \<Rightarrow> int" where
  "rfind [] c = -1"
| "rfind (x # xs) c =
     (let r = rfind xs c in if 0 \<le> r then r + 1 else if x = c then 0 else -1)"

text \<open>
  A slice \<^verbatim>\<open>s[i:j]\<close> with Python's index rules: a negative index counts from the
  end, every index is clipped to \<open>0..len(s)\<close>, and the slice is empty when the
  resolved lower index is not below the upper one.
\<close>

definition slice_index :: "nat \<Rightarrow> int \<Rightarrow> nat" where
  "slice_index n i = (if i < 0 then nat (max (i + int n) 0) else min (nat i) n)"

definition slice :: "'a list \<Rightarrow> int \<Rightarrow> int \<Rightarrow> 'a list" where
  "slice s i j =
     (let lo = slice_index (length s) i; hi = slice_index (length s) j
      in if lo < hi then take (hi - lo) (drop lo s) else [])"

text \<open>\<^verbatim>\<open>str(n)\<close> for a non-negative integer: its decimal digits.\<close>

fun str :: "nat \<Rightarrow> string" where
  "str n = (if n < 10 then [char_of (48 + n)] else str (n div 10) @ [char_of (48 + n mod 10)])"

declare str.simps [simp del]

section \<open>Regular expressions of Python's re module\<close>

text \<open>
  The fragment of the pattern language that the script's patterns use: a literal
  character, \<^verbatim>\<open>.\<close> (any character but a newline, since no flag is given),
  concatenation, alternation \<^verbatim>\<open>|\<close>, \<^verbatim>\<open>?\<close> and \<^verbatim>\<open>*\<close>.
  \<open>Eps\<close> is the empty pattern.
\<close>

datatype regex =
    Eps
  | Chr char
  | Dot
  | Seq regex regex
  | Alt regex regex
  | Opt regex
  | Star regex

text \<open>
  \<open>matches_k r k s\<close>: some prefix of \<open>s\<close> matches \<open>r\<close> and the continuation
  \<open>k\<close> accepts the rest. The alternatives are tried in the order of the backtracking
  matcher (greedy first). An iteration of \<open>Star\<close> that consumes nothing cannot help a
  match, so \<open>length s\<close> iterations are enough.
\<close>

primrec star_k ::
  "nat \<Rightarrow> ((string \<Rightarrow> bool) \<Rightarrow> string \<Rightarrow> bool) \<Rightarrow> (string \<Rightarrow> bool) \<Rightarrow> string \<Rightarrow> bool" where
  "star_k 0 m k s = k s"
| "star_k (Suc n) m k s = (if m (star_k n m k) s then True else k s)"

primrec matches_k :: "regex \<Rightarrow> (string \<Rightarrow> bool) \<Rightarrow> string \<Rightarrow> bool" where
  "matches_k Eps k s = k s"
| "matches_k (Chr c) k s = (case s of [] \<Rightarrow> False | x # xs \<Rightarrow> if x = c then k xs else False)"
| "matches_k Dot k s =
     (case s of [] \<Rightarrow> False | x # xs \<Rightarrow> if x = CHR 0x0A then False else k xs)"
| "matches_k (Seq a b) k s = matches_k a (matches_k b k) s"
| "matches_k (Alt a b) k s = (if matches_k a k s then True else matches_k b k s)"
| "matches_k (Opt a) k s = (if matches_k a k s then True else k s)"
| "matches_k (Star a) k s = star_k (length s) (matches_k a) k s"

text \<open>\<open>match_at r s\<close>: the pattern matches at the start of \<open>s\<close> (\<^verbatim>\<open>re.match\<close>).\<close>

definition match_at :: "regex \<Rightarrow> string \<Rightarrow> bool" where
  "match_at r s = matches_k r (\<lambda>rest. True) s"

text \<open>
  \<^verbatim>\<open>re.search(r, s)\<close> read as a truth value: the pattern matches at some position
  of \<open>s\<close>, the end included.
\<close>

primrec re_search :: "regex \<Rightarrow> string \<Rightarrow> bool" where
  "re_search r [] = match_at r []"
| "re_search r (x # xs) = (if match_at r (x # xs) then True else re_search r xs)"

text \<open>
  The language of a pattern, for reference: the strings that it matches as a whole.
  The matcher above is shown below to search for exactly these.
\<close>

definition conc :: "string set \<Rightarrow> string set \<Rightarrow> string set" where
  "conc A B = {u @ v | u v. u \<in> A \<and> v \<in> B}"

inductive_set star :: "string set \<Rightarrow> string set" for A :: "string set" where
  nil: "[] \<in> star A"
| step: "u \<in> A \<Longrightarrow> v \<in> star A \<Longrightarrow> u @ v \<in> star A"

primrec lang :: "regex \<Rightarrow> string set" where
  "lang Eps = {[]}"
| "lang (Chr c) = {[c]}"
| "lang Dot = {[x] | x. x \<noteq> CHR 0x0A}"
| "lang (Seq a b) = conc (lang a) (lang b)"
| "lang (Alt a b) = lang a \<union> lang b"
| "lang (Opt a) = insert [] (lang a)"
| "lang (Star a) = star (lang a)"

text \<open>A literal word of a pattern.\<close>

primrec lit :: "string \<Rightarrow> regex" where
  "lit [] = Eps"
| "lit (c # cs) = Seq (Chr c) (lit cs)"

section \<open>The classifier\<close>

text \<open>The patterns of \<^verbatim>\<open>detect_metadata\<close>, in the order of its branches.\<close>

text \<open>\<^verbatim>\<open>check.?in|attendance|qr.?(code|scan)\<close>\<close>

definition re_attendance :: regex where
  "re_attendance =
     Alt (Seq (lit ''check'') (Seq (Opt Dot) (lit ''in'')))
    (Alt (lit ''attendance'')
         (Seq (lit ''qr'') (Seq (Opt Dot) (Alt (lit ''code'') (lit ''scan'')))))"

text \<open>\<^verbatim>\<open>register.*child|add.*child|child.*record|formal.?id\<close>\<close>

definition re_children :: regex where
  "re_children =
     Alt (Seq (lit ''register'') (Seq (Star Dot) (lit ''child'')))
    (Alt (Seq (lit ''add'') (Seq (Star Dot) (lit ''child'')))
    (Alt (Seq (lit ''child'') (Seq (Star Dot) (lit ''record'')))
         (Seq (lit ''formal'') (Seq (Opt Dot) (lit ''id'')))))"

text \<open>\<^verbatim>\<open>register|add\<close>\<close>

definition re_register :: regex where
  "re_register = Alt (lit ''register'') (lit ''add'')"

text \<open>\<^verbatim>\<open>guardian|parent|emergency\<close>\<close>

definition re_guardians :: regex where
  "re_guardians = Alt (lit ''guardian'') (Alt (lit ''parent'') (lit ''emergency''))"

text \<open>\<^verbatim>\<open>report|analytic|dashboard|statistic\<close>\<close>

definition re_reports :: regex where
  "re_reports =
     Alt (lit ''report'') (Alt (lit ''analytic'') (Alt (lit ''dashboard'') (lit ''statistic'')))"

text \<open>\<^verbatim>\<open>staff.*management|volunteer.*assign|access.*level\<close>\<close>

definition re_staff :: regex where
  "re_staff =
     Alt (Seq (lit ''staff'') (Seq (Star Dot) (lit ''management'')))
    (Alt (Seq (lit ''volunteer'') (Seq (Star Dot) (lit ''assign'')))
         (Seq (lit ''access'') (Seq (Star Dot) (lit ''level''))))"

text \<open>\<^verbatim>\<open>email.*template|send.*email|smtp\<close>\<close>

definition re_email :: regex where
  "re_email =
     Alt (Seq (lit ''email'') (Seq (Star Dot) (lit ''template'')))
    (Alt (Seq (lit ''send'') (Seq (Star Dot) (lit ''email'')))
         (lit ''smtp''))"

text \<open>\<^verbatim>\<open>settings|configuration|api.*key|deployment\<close>\<close>

definition re_settings :: regex where
  "re_settings =
     Alt (lit ''settings'')
    (Alt (lit ''configuration'')
    (Alt (Seq (lit ''api'') (Seq (Star Dot) (lit ''key'')))
         (lit ''deployment'')))"

text \<open>\<^verbatim>\<open>navigation|menu|button|sidebar\<close>\<close>

definition re_navigation :: regex where
  "re_navigation =
     Alt (lit ''navigation'') (Alt (lit ''menu'') (Alt (lit ''button'') (lit ''sidebar'')))"

text \<open>\<^verbatim>\<open>error|troubleshoot|fix|debug\<close>\<close>

definition re_troubleshooting :: regex where
  "re_troubleshooting =
     Alt (lit ''error'') (Alt (lit ''troubleshoot'') (Alt (lit ''fix'') (lit ''debug'')))"

text \<open>\<^verbatim>\<open>introduction|overview|getting.*started\<close>\<close>

definition re_overview :: regex where
  "re_overview =
     Alt (lit ''introduction'')
    (Alt (lit ''overview'')
         (Seq (lit ''getting'') (Seq (Star Dot) (lit ''started''))))"

text \<open>The dictionary that \<^verbatim>\<open>detect_metadata\<close> returns.\<close>

record metadata =
  topic :: string
  task :: string
  role_min :: int
  page :: int

definition detect_metadata :: "string \<Rightarrow> int \<Rightarrow> metadata" where
  "detect_metadata text page_num =
     (let text_lower = lower text;
          (topic, task, role_min) =
            (if re_search re_attendance text_lower then
               (''attendance'', ''procedure'', 1)
             else if re_search re_children text_lower then
               (''children'',
                if re_search re_register text_lower then ''procedure'' else ''navigation'',
                3)
             else if re_search re_guardians text_lower then
               (''guardians'', ''navigation'', 3)
             else if re_search re_reports text_lower then
               (''reports'', ''navigation'', 5)
             else if re_search re_staff text_lower then
               (''staff_management'', ''navigation'', 5)
             else if re_search re_email text_lower then
               (''email'', ''procedure'', 5)
             else if re_search re_settings text_lower then
               (''settings'', ''navigation'', 10)
             else if re_search re_navigation text_lower then
               (''navigation'', ''navigation'', 1)
             else if re_search re_troubleshooting text_lower then
               (''troubleshooting'', ''troubleshooting'', 1)
             else if re_search re_overview text_lower then
               (''overview'', ''reference'', 1)
             else
               (''general'', ''reference'', 1))
      in \<lparr>topic = topic, task = task, role_min = role_min, page = page_num\<rparr>)"

subsection \<open>The cascade as the specification words it\<close>

text \<open>
  The ten rules in their priority order, each a pattern test with the result it
  gives; the result of the second rule depends on one more test of the text. The
  first rule whose pattern matches the lower-cased text wins, and the default applies
  when none does.
\<close>

definition spec_rules :: "(regex \<times> (string \<Rightarrow> string \<times> string \<times> int)) list" where
  "spec_rules =
     [(re_attendance, \<lambda>t. (''attendance'', ''procedure'', 1)),
      (re_children,
         \<lambda>t. (''children'', if re_search re_register t then ''procedure'' else ''navigation'', 3)),
      (re_guardians, \<lambda>t. (''guardians'', ''navigation'', 3)),
      (re_reports, \<lambda>t. (''reports'', ''navigation'', 5)),
      (re_staff, \<lambda>t. (''staff_management'', ''navigation'', 5)),
      (re_email, \<lambda>t. (''email'', ''procedure'', 5)),
      (re_settings, \<lambda>t. (''settings'', ''navigation'', 10)),
      (re_navigation, \<lambda>t. (''navigation'', ''navigation'', 1)),
      (re_troubleshooting, \<lambda>t. (''troubleshooting'', ''troubleshooting'', 1)),
      (re_overview, \<lambda>t. (''overview'', ''reference'', 1))]"

definition spec_classify :: "string \<Rightarrow> string \<times> string \<times> int" where
  "spec_classify t =
     (case find (\<lambda>rule. re_search (fst rule) (lower t)) spec_rules of
        None \<Rightarrow> (''general'', ''reference'', 1)
      | Some rule \<Rightarrow> snd rule (lower t))"

section \<open>The chunker\<close>

text \<open>\<^verbatim>\<open>CONFIG['chunk_size']\<close> and \<^verbatim>\<open>CONFIG['chunk_overlap']\<close>.\<close>

definition chunk_size :: int where
  "chunk_size = 800"

definition chunk_overlap :: int where
  "chunk_overlap = 150"

text \<open>
  The untrimmed window of one iteration of the \<^verbatim>\<open>while\<close> loop, for the cursor
  \<open>start\<close>. The test \<^verbatim>\<open>break_point > CONFIG['chunk_size'] * 0.7\<close> compares an
  integer with the float product, which is exactly 560.0; it is written here without
  the division.
\<close>

definition window :: "string \<Rightarrow> int \<Rightarrow> string" where
  "window text start =
     (let end' = min (start + chunk_size) (int (length text));
          chunk_text = slice text start end'
      in if end' < int (length text) then
           (let last_period = rfind chunk_text (CHR ''.'');
                last_newline = rfind chunk_text (CHR 0x0A);
                break_point = max last_period last_newline
            in if chunk_size * 7 < break_point * 10
               then slice text start (start + break_point + 1)
               else chunk_text)
         else chunk_text)"

text \<open>A page as \<^verbatim>\<open>extract_text_from_pdf\<close> yields it.\<close>

record pdf_page =
  page_num :: int
  page_text :: string

text \<open>
  A chunk: the keys \<^verbatim>\<open>id\<close> and \<^verbatim>\<open>text\<close>, and the keys of the metadata
  (\<^verbatim>\<open>**metadata\<close>).
\<close>

record chunk = metadata +
  id' :: string
  text' :: string

text \<open>
  The variables that the loops of \<^verbatim>\<open>create_chunks\<close> change: the cursor, the
  list of chunks, and the global counter.
\<close>

record loop_state =
  start :: int
  chunks :: "chunk list"
  chunk_counter :: nat

text \<open>One iteration of the \<^verbatim>\<open>while\<close> loop on the page \<open>pg\<close>.\<close>

definition loop_body :: "pdf_page \<Rightarrow> loop_state \<Rightarrow> loop_state" where
  "loop_body pg s =
     (let chunk_text = strip (window (page_text pg) (start s));
          s' = (if 100 < length chunk_text then
                  (let metadata = detect_metadata chunk_text (page_num pg)
                   in s\<lparr>chunks := chunks s @
                          [metadata.extend metadata
                             (chunk.fields (''chunk-'' @ str (chunk_counter s)) chunk_text)],
                        chunk_counter := chunk_counter s + 1\<rparr>)
                else s)
      in s'\<lparr>start := start s + (int (length chunk_text) - chunk_overlap)\<rparr>)"

text \<open>
  The \<^verbatim>\<open>while\<close> loop. It need not terminate, so its result is an option:
  \<open>None\<close> is a loop that runs forever.
\<close>

partial_function (option) while_loop :: "pdf_page \<Rightarrow> loop_state \<Rightarrow> loop_state option" where
  "while_loop pg s =
     (if start s < int (length (page_text pg)) then while_loop pg (loop_body pg s)
      else Some s)"

text \<open>The \<^verbatim>\<open>for\<close> loop over the pages; each page starts with the cursor at 0.\<close>

fun for_pages :: "pdf_page list \<Rightarrow> loop_state \<Rightarrow> loop_state option" where
  "for_pages [] s = Some s"
| "for_pages (pg # pages) s =
     (case while_loop pg (s\<lparr>start := 0\<rparr>) of
        None \<Rightarrow> None
      | Some s' \<Rightarrow> for_pages pages s')"

text \<open>
  \<^verbatim>\<open>create_chunks(pages)\<close>, called with the global counter at \<open>counter\<close>: the
  returned list and the counter after the call, or \<open>None\<close> when the call does not
  return. \<open>entry_state\<close> holds the variables on entry.
\<close>

definition entry_state :: "nat \<Rightarrow> loop_state" where
  "entry_state counter = \<lparr>start = 0, chunks = [], chunk_counter = counter\<rparr>"

definition create_chunks :: "pdf_page list \<Rightarrow> nat \<Rightarrow> (chunk list \<times> nat) option" where
  "create_chunks pages counter =
     (case for_pages pages (entry_state counter) of
        None \<Rightarrow> None
      | Some s \<Rightarrow> Some (chunks s, chunk_counter s))"

text \<open>
  The run of \<^verbatim>\<open>create_chunks\<close> step by step. \<open>reaches pages counter todo s\<close>: the
  call on \<open>pages\<close>, entered with the counter at \<open>counter\<close>, comes to the head of the
  \<^verbatim>\<open>while\<close> loop of the first page of \<open>todo\<close> with the variables \<open>s\<close>, the pages
  after it still to do; with \<open>todo\<close> empty it has left the \<^verbatim>\<open>for\<close> loop. This
  describes every point of a run, also of one that never returns.
\<close>

inductive reaches :: "pdf_page list \<Rightarrow> nat \<Rightarrow> pdf_page list \<Rightarrow> loop_state \<Rightarrow> bool"
  for pages :: "pdf_page list" and counter :: nat where
  enter: "reaches pages counter pages (entry_state counter)"
| iterate:
    "reaches pages counter (pg # todo) s \<Longrightarrow> start s < int (length (page_text pg)) \<Longrightarrow>
     reaches pages counter (pg # todo) (loop_body pg s)"
| next_page:
    "reaches pages counter (pg # todo) s \<Longrightarrow> \<not> start s < int (length (page_text pg)) \<Longrightarrow>
     reaches pages counter todo (s\<lparr>start := 0\<rparr>)"

subsection \<open>The windowing algorithm as the specification words it\<close>

text \<open>
  The break point: the later of the last period and the last newline of the window,
  if there is one.
\<close>

definition spec_break_point :: "string \<Rightarrow> nat option" where
  "spec_break_point w =
     (case filter (\<lambda>i. w ! i = CHR ''.'' \<or> w ! i = CHR 0x0A) [0..<length w] of
        [] \<Rightarrow> None
      | i # is \<Rightarrow> Some (last (i # is)))"

text \<open>
  The tentative window is \<^verbatim>\<open>text[start : min(start + 800, len(text))]\<close>; when it does
  not reach the end of the text and the break point exceeds 0.7 * 800, the window is
  shrunk to end right after the break character.
\<close>

definition spec_window :: "string \<Rightarrow> int \<Rightarrow> string" where
  "spec_window text cursor =
     (let end' = min (cursor + 800) (int (length text));
          tentative = slice text cursor end'
      in if end' < int (length text) then
           (case spec_break_point tentative of
              None \<Rightarrow> tentative
            | Some b \<Rightarrow> if 7 * 800 < 10 * b then take (b + 1) tentative else tentative)
         else tentative)"

text \<open>The window is trimmed, and the cursor advances by the trimmed length minus 150.\<close>

definition spec_step :: "string \<Rightarrow> int \<Rightarrow> string \<times> int" where
  "spec_step text cursor =
     (let trimmed = strip (spec_window text cursor)
      in (trimmed, cursor + (int (length trimmed) - 150)))"

subsection \<open>Reading a chunk id back\<close>

text \<open>
  The number that an id \<^verbatim>\<open>chunk-<n>\<close> was formatted from: the decimal value of
  what follows the six characters of the prefix.
\<close>

definition decimal_value :: "string \<Rightarrow> nat" where
  "decimal_value ds = foldl (\<lambda>a c. 10 * a + (of_char c - 48)) 0 ds"

definition chunk_number :: "string \<Rightarrow> nat" where
  "chunk_number i = decimal_value (drop 6 i)"

subsection \<open>A page of 120 letters\<close>

text \<open>A page shorter than the overlap, on which the loop is traced below.\<close>

definition letters_page :: pdf_page where
  "letters_page = \<lparr>page_num = 1, page_text = replicate 120 (CHR ''a'')\<rparr>"

subsection \<open>A page of 150 characters of prose\<close>

text \<open>Plain prose that none of the patterns matches, 150 characters long.\<close>

definition prose_page :: pdf_page where
  "prose_page =
     \<lparr>page_num = 1,
      page_text = ''The quick brown fox jumps over the lazy dog while the sun sets slowly behind the distant hills, and a cool wind passes through the tall grass at dusk.''\<rparr>"

subsection \<open>The page of the two-window example\<close>

text \<open>\<^verbatim>\<open>"A." * 50 + "\n" + "B." * 50\<close>\<close>

definition two_part_page :: pdf_page where
  "two_part_page =
     \<lparr>page_num = 1,
      page_text = concat (replicate 50 ''A.'') @ [CHR 0x0A] @ concat (replicate 50 ''B.'')\<rparr>"

subsection \<open>A page with one period\<close>

text \<open>600 spaces, a period and 99 spaces.\<close>

definition dotted_page :: pdf_page where
  "dotted_page =
     \<lparr>page_num = 1,
      page_text = replicate 600 (CHR '' '') @ ''.'' @ replicate 99 (CHR '' '')\<rparr>"

section \<open>Exceptions and the external services\<close>

text \<open>
  An exception is a value; every one that occurs here is an instance of
  \<^verbatim>\<open>Exception\<close>. \<open>ServiceError\<close> stands for whatever a client library or the
  file system raises, with the text that \<^verbatim>\<open>str(e)\<close> gives.
\<close>

datatype pyerror =
    ValueError string
  | IndexError string
  | ServiceError string

fun message :: "pyerror \<Rightarrow> string" where
  "message (ValueError m) = m"
| "message (IndexError m) = m"
| "message (ServiceError m) = m"

text \<open>\<^verbatim>\<open>sub in s\<close> for strings.\<close>

primrec contains :: "string \<Rightarrow> string \<Rightarrow> bool" where
  "contains sub [] = (sub = [])"
| "contains sub (x # xs) = (if take (length sub) (x # xs) = sub then True else contains sub xs)"

text \<open>\<^verbatim>\<open>try: body except Exception as e: handler(e)\<close>\<close>

definition try_except :: "pyerror + 'a \<Rightarrow> (pyerror \<Rightarrow> pyerror + 'a) \<Rightarrow> pyerror + 'a" where
  "try_except body handler = (case body of Inl e \<Rightarrow> handler e | Inr v \<Rightarrow> Inr v)"

text \<open>
  The embedding service: the outcome of the \<open>n\<close>-th call
  \<^verbatim>\<open>openai_client.embeddings.create(input=texts, ...)\<close> (counted from 0), an
  exception or the embeddings of \<^verbatim>\<open>response.data\<close> in their order. A vector is a
  value of the type \<open>'v\<close>.
\<close>

type_synonym 'v embedding_service = "nat \<Rightarrow> string list \<Rightarrow> pyerror + 'v list"

section \<open>The embedder\<close>

record 'v embedded_chunk = chunk +
  embedding :: 'v

definition embedding_batch_size :: nat where
  "embedding_batch_size = 100"

text \<open>
  The inner loop \<^verbatim>\<open>for j, embedding_data in enumerate(response.data)\<close>;
  \<^verbatim>\<open>batch[j]\<close> raises when the response holds more entries than the batch.
\<close>

primrec combine ::
  "chunk list \<Rightarrow> 'v list \<Rightarrow> nat \<Rightarrow> 'v embedded_chunk list \<Rightarrow> pyerror + 'v embedded_chunk list" where
  "combine batch [] j embeddings = Inr embeddings"
| "combine batch (embedding_data # data) j embeddings =
     (if j < length batch then
        combine batch data (Suc j)
          (embeddings @ [chunk.extend (batch ! j) (embedded_chunk.fields embedding_data)])
      else Inl (IndexError ''list index out of range''))"

text \<open>
  The outer loop \<^verbatim>\<open>for i in range(0, len(chunks), batch_size)\<close>, from the index
  \<open>i\<close> on. The pause between two batches has no effect on the result.
\<close>

function embed_batches ::
  "'v embedding_service \<Rightarrow> chunk list \<Rightarrow> nat \<Rightarrow> 'v embedded_chunk list \<Rightarrow>
   pyerror + 'v embedded_chunk list" where
  "embed_batches api chunks' i embeddings =
     (if i < length chunks' then
        (let batch = take embedding_batch_size (drop i chunks');
             texts = map text' batch
         in case api (i div embedding_batch_size) texts of
              Inl e \<Rightarrow> Inl e
            | Inr data \<Rightarrow>
                (case combine batch data 0 embeddings of
                   Inl e \<Rightarrow> Inl e
                 | Inr embeddings' \<Rightarrow>
                     embed_batches api chunks' (i + embedding_batch_size) embeddings'))
      else Inr embeddings)"
  by pat_completeness auto
termination
  by (relation "measure (\<lambda>(api, chunks', i, embeddings). length chunks' - i)")
     (auto simp: embedding_batch_size_def)

declare embed_batches.simps [simp del]

definition generate_embeddings ::
  "'v embedding_service \<Rightarrow> chunk list \<Rightarrow> pyerror + 'v embedded_chunk list" where
  "generate_embeddings api chunks' = embed_batches api chunks' 0 []"

section \<open>The indexer\<close>

text \<open>
  The vector index: \<open>pinecone_Index n name\<close> is the outcome of the \<open>n\<close>-th call
  \<^verbatim>\<open>pinecone_client.Index(name)\<close> of the run, \<open>index_delete\<close> that of
  \<^verbatim>\<open>index.delete(delete_all=True)\<close>, and \<open>index_upsert n batch\<close> that of the
  \<open>n\<close>-th call \<^verbatim>\<open>index.upsert(vectors=batch)\<close>.
\<close>

record vector_metadata =
  m_text :: string
  m_page :: int
  m_topic :: string
  m_task :: string
  m_role_min :: int
  m_source :: string
  m_type :: string

record 'v vector =
  vector_id :: string
  vector_values :: 'v
  vector_metadata :: vector_metadata

record 'v index_service =
  pinecone_Index :: "nat \<Rightarrow> string \<Rightarrow> pyerror + unit"
  index_delete :: "pyerror + unit"
  index_upsert :: "nat \<Rightarrow> 'v vector list \<Rightarrow> pyerror + unit"

text \<open>
  \<^verbatim>\<open>delete_all_vectors(index_name)\<close>: an exception that leaves it, or the lines it
  printed after the first (their pictographs left out).
\<close>

definition delete_all_vectors ::
  "('v, 'x) index_service_scheme \<Rightarrow> string \<Rightarrow> pyerror + string list" where
  "delete_all_vectors svc index_name =
     try_except
       (case pinecone_Index svc 0 index_name of
          Inl e \<Rightarrow> Inl e
        | Inr index \<Rightarrow>
            (case index_delete svc of
               Inl e \<Rightarrow> Inl e
             | Inr u \<Rightarrow> Inr [''Index cleared'']))
       (\<lambda>e. if contains ''404'' (message e) then Inr [''Index already empty'']
            else Inr [''Could not delete: '' @ message e,
                      ''Continuing anyway (will overwrite existing vectors)''])"

text \<open>The list of vectors that \<^verbatim>\<open>upload_to_pinecone\<close> prepares.\<close>

definition prepare_vector :: "'v embedded_chunk \<Rightarrow> 'v vector" where
  "prepare_vector item =
     \<lparr>vector_id = id' item,
      vector_values = embedding item,
      vector_metadata =
        \<lparr>m_text = text' item, m_page = page item, m_topic = topic item, m_task = task item,
         m_role_min = role_min item, m_source = ''NextGen-User Manual.pdf'',
         m_type = ''documentation''\<rparr>\<rparr>"

text \<open>The loop \<^verbatim>\<open>for i in range(0, len(vectors), batch_size)\<close>, from \<open>i\<close> on.\<close>

function upload_batches ::
  "('v, 'x) index_service_scheme \<Rightarrow> 'v vector list \<Rightarrow> nat \<Rightarrow> pyerror + unit" where
  "upload_batches svc vectors i =
     (if i < length vectors then
        (case index_upsert svc (i div 100) (take 100 (drop i vectors)) of
           Inl e \<Rightarrow> Inl e
         | Inr u \<Rightarrow> upload_batches svc vectors (i + 100))
      else Inr ())"
  by pat_completeness auto
termination
  by (relation "measure (\<lambda>(svc, vectors, i). length vectors - i)") auto

declare upload_batches.simps [simp del]

text \<open>
  \<^verbatim>\<open>upload_to_pinecone(embeddings, index_name)\<close>; it is the second place of a run
  that opens the index.
\<close>

definition upload_to_pinecone ::
  "('v, 'x) index_service_scheme \<Rightarrow> 'v embedded_chunk list \<Rightarrow> string \<Rightarrow> pyerror + unit" where
  "upload_to_pinecone svc embeddings index_name =
     (case pinecone_Index svc 1 index_name of
        Inl e \<Rightarrow> Inl e
      | Inr index \<Rightarrow> upload_batches svc (map prepare_vector embeddings) 0)"

section \<open>The pipeline driver\<close>

text \<open>
  \<^verbatim>\<open>extract_text_from_pdf\<close>, given what the PDF reader does: it raises, or it
  yields the extracted text of every page in order. Pages whose text is empty or
  blank are left out, and pages are numbered from 1.
\<close>

definition extract_text_from_pdf :: "pyerror + string list \<Rightarrow> pyerror + pdf_page list" where
  "extract_text_from_pdf reader =
     (case reader of
        Inl e \<Rightarrow> Inl e
      | Inr texts \<Rightarrow>
          Inr (map (\<lambda>(n, t). \<lparr>page_num = int n + 1, page_text = t\<rparr>)
                 (filter (\<lambda>(n, t). t \<noteq> [] \<and> strip t \<noteq> []) (enumerate 0 texts))))"

text \<open>What a run of the script finds around it.\<close>

record 'v environment = "'v index_service" +
  OPENAI_API_KEY :: "string option"
  PINECONE_API_KEY :: "string option"
  PINECONE_INDEX_NAME :: "string option"
  pdf_reader :: "pyerror + string list"
  embeddings_create :: "'v embedding_service"

text \<open>\<^verbatim>\<open>not os.getenv(name)\<close>: the variable is unset or empty.\<close>

definition unset :: "string option \<Rightarrow> bool" where
  "unset v = (case v of None \<Rightarrow> True | Some x \<Rightarrow> x = [])"

text \<open>
  The body of the \<^verbatim>\<open>try\<close> block of \<^verbatim>\<open>main\<close>: \<open>None\<close> when it never
  ends, else the exception that leaves it or its normal end.
\<close>

definition main_body :: "'v environment \<Rightarrow> (pyerror + unit) option" where
  "main_body env =
     (if unset (OPENAI_API_KEY env) \<or> unset (PINECONE_API_KEY env) then
        Some (Inl (ValueError ''Missing API keys in environment variables''))
      else if unset (PINECONE_INDEX_NAME env) then
        Some (Inl (ValueError ''Missing PINECONE_INDEX_NAME in environment variables''))
      else
        (let index_name = the (PINECONE_INDEX_NAME env)
         in case delete_all_vectors env index_name of
              Inl e \<Rightarrow> Some (Inl e)
            | Inr printed \<Rightarrow>
                (case extract_text_from_pdf (pdf_reader env) of
                   Inl e \<Rightarrow> Some (Inl e)
                 | Inr pages \<Rightarrow>
                     (case create_chunks pages 0 of
                        None \<Rightarrow> None
                      | Some (chunks', counter) \<Rightarrow>
                          (case generate_embeddings (embeddings_create env) chunks' of
                             Inl e \<Rightarrow> Some (Inl e)
                           | Inr embeddings \<Rightarrow>
                               Some (upload_to_pinecone env embeddings index_name))))))"

text \<open>
  \<^verbatim>\<open>main()\<close>: the exit status of the process, 1 after an exception
  (\<^verbatim>\<open>exit(1)\<close>) and 0 after a normal end; \<open>None\<close> when the run never ends.
\<close>

definition main :: "'v environment \<Rightarrow> nat option" where
  "main env =
     (case main_body env of
        None \<Rightarrow> None
      | Some (Inl error) \<Rightarrow> Some 1
      | Some (Inr u) \<Rightarrow> Some 0)"

text \<open>
  An environment in which the index cannot be opened for clearing, and the PDF has two
  pages without text.
\<close>

definition example_environment :: "nat environment" where
  "example_environment =
     \<lparr>pinecone_Index =
        (\<lambda>n name. if n = 0 then Inl (ServiceError ''(500) Internal Server Error'') else Inr ()),
      index_delete = Inr (),
      index_upsert = (\<lambda>n batch. Inr ()),
      OPENAI_API_KEY = Some ''sk-test'',
      PINECONE_API_KEY = Some ''pc-test'',
      PINECONE_INDEX_NAME = Some ''manual'',
      pdf_reader = Inr [[], ''  ''],
      embeddings_create = (\<lambda>n texts. Inr (map length texts))\<rparr>"

section \<open>The matcher finds the matches of a pattern\<close>

lemma star_cases_nonempty:
  "u \<in> star A \<Longrightarrow> u = [] \<or> (\<exists>p q. u = p @ q \<and> p \<noteq> [] \<and> p \<in> A \<and> q \<in> star A)"
proof (induction rule: star.induct)
  case nil
  show ?case by simp
next
  case (step u v)
  show ?case
  proof (cases "u = []")
    case True
    with step show ?thesis by simp
  next
    case False
    with step show ?thesis by blast
  qed
qed

lemma star_k_accepts: "k s \<Longrightarrow> star_k n m k s"
  by (cases n) simp_all

lemma star_k_sound:
  assumes m: "\<And>k s. m k s \<Longrightarrow> \<exists>u v. s = u @ v \<and> u \<in> A \<and> k v"
  shows "star_k n m k s \<Longrightarrow> \<exists>u v. s = u @ v \<and> u \<in> star A \<and> k v"
proof (induction n arbitrary: s)
  case 0
  then have "s = [] @ s \<and> [] \<in> star A \<and> k s"
    by (simp add: star.nil)
  then show ?case by blast
next
  case (Suc n)
  show ?case
  proof (cases "m (star_k n m k) s")
    case True
    from m [OF this] obtain u v where uv: "s = u @ v" "u \<in> A" "star_k n m k v"
      by blast
    from Suc.IH [OF uv(3)] obtain u' v' where "v = u' @ v'" "u' \<in> star A" "k v'"
      by blast
    with uv have "s = (u @ u') @ v' \<and> u @ u' \<in> star A \<and> k v'"
      by (simp add: star.step)
    then show ?thesis by blast
  next
    case False
    with Suc.prems have "s = [] @ s \<and> [] \<in> star A \<and> k s"
      by (simp add: star.nil)
    then show ?thesis by blast
  qed
qed

lemma star_k_complete:
  assumes m: "\<And>k u v. u \<in> A \<Longrightarrow> k v \<Longrightarrow> m k (u @ v)"
  shows "u \<in> star A \<Longrightarrow> k v \<Longrightarrow> length (u @ v) \<le> n \<Longrightarrow> star_k n m k (u @ v)"
proof (induction n arbitrary: u)
  case 0
  then show ?case by simp
next
  case (Suc n)
  from star_cases_nonempty [OF Suc.prems(1)] show ?case
  proof
    assume "u = []"
    with Suc.prems(2) show ?thesis
      by (simp add: star_k_accepts)
  next
    assume "\<exists>p q. u = p @ q \<and> p \<noteq> [] \<and> p \<in> A \<and> q \<in> star A"
    then obtain p q where pq: "u = p @ q" "p \<noteq> []" "p \<in> A" "q \<in> star A"
      by blast
    with Suc.prems(3) have "length (q @ v) \<le> n"
      by (cases p) simp_all
    from Suc.IH [OF pq(4) Suc.prems(2) this] have "star_k n m k (q @ v)" .
    from m [OF pq(3), of "star_k n m k", OF this] pq(1) show ?thesis
      by simp
  qed
qed

lemma matches_k_iff:
  "matches_k r k s \<longleftrightarrow> (\<exists>u v. s = u @ v \<and> u \<in> lang r \<and> k v)"
proof (induction r arbitrary: k s)
  case Eps
  show ?case by simp
next
  case (Chr c)
  show ?case by (cases s) auto
next
  case Dot
  show ?case
  proof (cases s)
    case Nil
    then show ?thesis by simp
  next
    case (Cons x xs)
    have "(\<exists>u v. x # xs = u @ v \<and> u \<in> lang Dot \<and> k v) \<longleftrightarrow> x \<noteq> CHR 0x0A \<and> k xs"
    proof
      assume "\<exists>u v. x # xs = u @ v \<and> u \<in> lang Dot \<and> k v"
      then obtain u v y where "x # xs = u @ v" "u = [y]" "y \<noteq> CHR 0x0A" "k v"
        by auto
      then show "x \<noteq> CHR 0x0A \<and> k xs" by simp
    next
      assume "x \<noteq> CHR 0x0A \<and> k xs"
      then have "x # xs = [x] @ xs \<and> [x] \<in> lang Dot \<and> k xs" by simp
      then show "\<exists>u v. x # xs = u @ v \<and> u \<in> lang Dot \<and> k v" by blast
    qed
    with Cons show ?thesis by simp
  qed
next
  case (Seq a b)
  show ?case
    by (simp add: Seq conc_def) (metis append.assoc)
next
  case (Alt a b)
  show ?case
    by (auto simp: Alt)
next
  case (Opt a)
  show ?case
    by (auto simp: Opt)
next
  case (Star a)
  show ?case
  proof
    assume "matches_k (Star a) k s"
    then have "star_k (length s) (matches_k a) k s" by simp
    then show "\<exists>u v. s = u @ v \<and> u \<in> lang (Star a) \<and> k v"
      using star_k_sound [of "matches_k a" "lang a"] Star by fastforce
  next
    assume "\<exists>u v. s = u @ v \<and> u \<in> lang (Star a) \<and> k v"
    then obtain u v where uv: "s = u @ v" "u \<in> star (lang a)" "k v" by auto
    have step: "matches_k a k' (u' @ v')" if "u' \<in> lang a" and "k' v'" for k' u' v'
      using that by (auto simp: Star)
    have "star_k (length (u @ v)) (matches_k a) k (u @ v)"
      using star_k_complete [where m = "matches_k a" and A = "lang a" and k = k and u = u
          and v = v and n = "length (u @ v)"] step uv(2,3)
      by blast
    with uv(1) show "matches_k (Star a) k s" by simp
  qed
qed

lemma match_at_iff: "match_at r s \<longleftrightarrow> (\<exists>u v. s = u @ v \<and> u \<in> lang r)"
  by (simp add: match_at_def matches_k_iff)

lemma re_search_iff: "re_search r s \<longleftrightarrow> (\<exists>p u v. s = p @ u @ v \<and> u \<in> lang r)"
proof (induction s)
  case Nil
  show ?case by (simp add: match_at_iff)
next
  case (Cons x s)
  show ?case
  proof
    assume "re_search r (x # s)"
    then consider "match_at r (x # s)" | "re_search r s"
      by (auto split: if_splits)
    then show "\<exists>p u v. x # s = p @ u @ v \<and> u \<in> lang r"
    proof cases
      case 1
      then show ?thesis
        by (metis append_Nil match_at_iff)
    next
      case 2
      with Cons obtain p u v where "s = p @ u @ v" "u \<in> lang r" by blast
      then have "x # s = (x # p) @ u @ v \<and> u \<in> lang r" by simp
      then show ?thesis by blast
    qed
  next
    assume "\<exists>p u v. x # s = p @ u @ v \<and> u \<in> lang r"
    then obtain p u v where puv: "x # s = p @ u @ v" "u \<in> lang r" by blast
    show "re_search r (x # s)"
    proof (cases p)
      case Nil
      with puv have "match_at r (x # s)"
        by (auto simp: match_at_iff)
      then show ?thesis by simp
    next
      case (Cons y p')
      with puv have "s = p' @ u @ v" by simp
      with puv(2) Cons.IH have "re_search r s" by blast
      then show ?thesis by simp
    qed
  qed
qed

section \<open>Strings, slices and windows\<close>

lemma entry_state_simps [simp]:
  "start (entry_state counter) = 0"
  "chunks (entry_state counter) = []"
  "chunk_counter (entry_state counter) = counter"
  by (simp_all add: entry_state_def)

lemma length_strip_le: "length (strip s) \<le> length s"
proof -
  have "length (strip s) = length (dropWhile isspace (rev (dropWhile isspace s)))"
    by (simp add: strip_def)
  also have "\<dots> \<le> length (rev (dropWhile isspace s))"
    by (rule length_dropWhile_le)
  also have "\<dots> \<le> length s"
    by (simp add: length_dropWhile_le)
  finally show ?thesis .
qed

lemma length_slice_le: "length (slice s i j) \<le> length s - slice_index (length s) i"
  by (simp add: slice_def Let_def)

lemma slice_index_nonneg: "0 \<le> i \<Longrightarrow> i < int n \<Longrightarrow> int (slice_index n i) = i"
  by (simp add: slice_index_def)

lemma length_window_le: "length (window text st) \<le> length text - slice_index (length text) st"
  by (simp add: window_def Let_def length_slice_le)

lemma dropWhile_hd_stop:
  assumes "m \<noteq> []" and "\<not> P (hd m)"
  shows "\<exists>u. dropWhile P (x @ m @ y) = u @ m @ y"
proof (induction x)
  case Nil
  from assms have "dropWhile P (m @ y) = m @ y"
    by (cases m) auto
  then show ?case by simp
next
  case (Cons c x)
  then obtain u where u: "dropWhile P (x @ m @ y) = u @ m @ y" by blast
  show ?case
  proof (cases "P c")
    case True
    with u show ?thesis by simp
  next
    case False
    then have "dropWhile P ((c # x) @ m @ y) = (c # x) @ m @ y" by simp
    then show ?thesis by blast
  qed
qed

lemma strip_keeps_core:
  assumes "m \<noteq> []" and "\<not> isspace (hd m)" and "\<not> isspace (last m)"
  shows "\<exists>u v. strip (x @ m @ y) = u @ m @ v"
proof -
  from dropWhile_hd_stop [where m = m and P = isspace and x = x and y = y, OF assms(1,2)] obtain u
    where u: "dropWhile isspace (x @ m @ y) = u @ m @ y" by blast
  have "rev m \<noteq> []" and "\<not> isspace (hd (rev m))"
    using assms by (simp_all add: hd_rev)
  from dropWhile_hd_stop [where m = "rev m" and P = isspace and x = "rev y" and y = "rev u", OF this]
  obtain v where v: "dropWhile isspace (rev y @ rev m @ rev u) = v @ rev m @ rev u" by blast
  have "strip (x @ m @ y) = u @ m @ rev v"
    by (simp add: strip_def u v)
  then show ?thesis by blast
qed

lemma strip_ends:
  assumes "strip s \<noteq> []"
  shows "\<not> isspace (hd (strip s))" and "\<not> isspace (last (strip s))"
proof -
  let ?d = "dropWhile isspace (rev (dropWhile isspace s))"
  from assms have ne: "?d \<noteq> []" by (simp add: strip_def)
  then have "\<not> isspace (hd ?d)" by (rule hd_dropWhile)
  then show "\<not> isspace (last (strip s))"
    using ne by (simp add: strip_def last_rev)
  have sub: "\<exists>zs. rev (dropWhile isspace s) = zs @ ?d"
    by (metis takeWhile_dropWhile_id)
  then obtain zs where zs: "rev (dropWhile isspace s) = zs @ ?d" by blast
  then have "dropWhile isspace s = rev ?d @ rev zs"
    by (metis rev_append rev_rev_ident)
  moreover from ne have "rev ?d \<noteq> []" by simp
  ultimately have "hd (dropWhile isspace s) = hd (rev ?d)" by (metis hd_append2)
  moreover have "dropWhile isspace s \<noteq> []"
  proof
    assume "dropWhile isspace s = []"
    then have "?d = []" by (simp only: rev.simps(1) dropWhile.simps(1))
    with ne show False by contradiction
  qed
  then have "\<not> isspace (hd (dropWhile isspace s))" by (rule hd_dropWhile)
  ultimately show "\<not> isspace (hd (strip s))"
    by (simp add: strip_def)
qed

lemma strip_decomp: "\<exists>a b. s = a @ strip s @ b"
proof -
  let ?d = "dropWhile isspace (rev (dropWhile isspace s))"
  obtain zs where "rev (dropWhile isspace s) = zs @ ?d"
    by (metis takeWhile_dropWhile_id)
  then have "dropWhile isspace s = rev ?d @ rev zs"
    by (metis rev_append rev_rev_ident)
  then have "s = takeWhile isspace s @ strip s @ rev zs"
    by (metis strip_def takeWhile_dropWhile_id)
  then show ?thesis by blast
qed

lemma length_strip_sublist:
  assumes "t = p @ w @ q"
  shows "length (strip w) \<le> length (strip t)"
proof (cases "strip w = []")
  case True
  then show ?thesis by simp
next
  case False
  obtain a b where w: "w = a @ strip w @ b"
    using strip_decomp by blast
  have "t = (p @ a) @ strip w @ (b @ q)"
    using assms w by (metis append.assoc)
  moreover from strip_keeps_core [OF False strip_ends [OF False]]
  obtain u v where "strip ((p @ a) @ strip w @ (b @ q)) = u @ strip w @ v" by blast
  ultimately show ?thesis by simp
qed

lemma slice_sublist: "\<exists>p q. s = p @ slice s i j @ q"
proof -
  let ?lo = "slice_index (length s) i" and ?hi = "slice_index (length s) j"
  show ?thesis
  proof (cases "?lo < ?hi")
    case True
    have "s = take ?lo s @ take (?hi - ?lo) (drop ?lo s) @ drop (?hi - ?lo) (drop ?lo s)"
      by (metis append_take_drop_id)
    with True show ?thesis
      by (auto simp: slice_def Let_def)
  next
    case False
    then have "slice s i j = []" by (simp add: slice_def Let_def)
    then show ?thesis by (metis append_Nil)
  qed
qed

lemma window_sublist: "\<exists>p q. text = p @ window text st @ q"
  by (simp add: window_def Let_def slice_sublist)

lemma length_strip_window:
  "length (strip (window text st)) \<le> length (strip text)"
  using window_sublist [of "text" st] length_strip_sublist by blast

section \<open>The window and the windowing algorithm of the specification\<close>

lemma rfind_ge: "- 1 \<le> rfind w c"
  by (induction w) (simp_all add: Let_def)

lemma rfind_lt: "rfind w c < int (length w)"
  by (induction w) (simp_all add: Let_def)

lemma rfind_nth: "0 \<le> rfind w c \<Longrightarrow> w ! nat (rfind w c) = c"
proof (induction w)
  case Nil
  then show ?case by simp
next
  case (Cons x w)
  show ?case
  proof (cases "0 \<le> rfind w c")
    case True
    with Cons.IH have "w ! nat (rfind w c) = c" by simp
    with True show ?thesis
      by (simp add: Let_def nat_add_distrib)
  next
    case False
    with Cons.prems show ?thesis
      by (simp add: Let_def split: if_splits)
  qed
qed

lemma rfind_max: "i < length w \<Longrightarrow> w ! i = c \<Longrightarrow> int i \<le> rfind w c"
proof (induction w arbitrary: i)
  case Nil
  then show ?case by simp
next
  case (Cons x w)
  show ?case
  proof (cases i)
    case 0
    with Cons.prems rfind_ge [of w c] show ?thesis
      by (simp add: Let_def)
  next
    case (Suc j)
    with Cons.prems have "int j \<le> rfind w c"
      by (intro Cons.IH) simp_all
    with Suc show ?thesis
      by (simp add: Let_def)
  qed
qed

lemma rfind_append:
  "rfind (xs @ ys) c =
     (if 0 \<le> rfind ys c then int (length xs) + rfind ys c else rfind xs c)"
  using rfind_ge [of ys c] by (induction xs) (auto simp: Let_def)

lemma rfind_replicate:
  "rfind (replicate n x) c = (if x = c \<and> 0 < n then int n - 1 else - 1)"
  by (induction n) (simp_all add: Let_def)

lemma sorted_le_last:
  assumes "sorted xs" and "j \<in> set xs"
  shows "j \<le> last (xs :: nat list)"
proof -
  from assms(2) obtain k where k: "k < length xs" "xs ! k = j"
    by (meson in_set_conv_nth)
  then have ne: "xs \<noteq> []" by auto
  from k have "k \<le> length xs - 1" by simp
  moreover from ne have "length xs - 1 < length xs" by simp
  ultimately have "xs ! k \<le> xs ! (length xs - 1)"
    using assms(1) by (intro sorted_nth_mono)
  with k ne show ?thesis
    by (simp add: last_conv_nth)
qed

lemma last_filter_upt:
  assumes "filter Q [0..<n] = i # is"
  shows "last (i # is) < n" and "Q (last (i # is))"
    and "\<And>j. j < n \<Longrightarrow> Q j \<Longrightarrow> j \<le> last (i # is)"
proof -
  have "last (i # is) \<in> set (filter Q [0..<n])"
    unfolding assms by (rule last_in_set) simp
  then show "last (i # is) < n" and "Q (last (i # is))"
    by simp_all
  fix j
  assume "j < n" and "Q j"
  then have "j \<in> set (i # is)"
    unfolding assms [symmetric] by simp
  moreover have "sorted (i # is)"
    unfolding assms [symmetric] by (rule sorted_wrt_filter) simp
  ultimately show "j \<le> last (i # is)"
    by (intro sorted_le_last)
qed

lemma spec_break_point_rfind:
  "spec_break_point w =
     (let b = max (rfind w (CHR ''.'')) (rfind w (CHR 0x0A))
      in if b < 0 then None else Some (nat b))"
proof -
  let ?Q = "\<lambda>i. w ! i = CHR ''.'' \<or> w ! i = CHR 0x0A"
  let ?m = "max (rfind w (CHR ''.'')) (rfind w (CHR 0x0A))"
  show ?thesis
  proof (cases "filter ?Q [0..<length w]")
    case Nil
    then have none: "\<And>i. i < length w \<Longrightarrow> \<not> ?Q i"
      by (auto simp: filter_empty_conv)
    have "rfind w c < 0" if "c = CHR ''.'' \<or> c = CHR 0x0A" for c
    proof (rule ccontr)
      assume "\<not> rfind w c < 0"
      then have "0 \<le> rfind w c" by simp
      moreover from this rfind_lt [of w c] have "nat (rfind w c) < length w" by simp
      ultimately show False
        using rfind_nth [of w c] none [of "nat (rfind w c)"] that by auto
    qed
    then have "?m < 0" by simp
    with Nil show ?thesis
      by (simp add: spec_break_point_def Let_def)
  next
    case (Cons i "is")
    define b where "b = last (i # is)"
    note b = last_filter_upt [OF Cons, folded b_def]
    from b(2) have le: "int b \<le> ?m"
      using rfind_max [OF b(1), of "CHR ''.''"] rfind_max [OF b(1), of "CHR 0x0A"] by auto
    have "?m \<le> int b"
    proof -
      obtain c where c: "c = CHR ''.'' \<or> c = CHR 0x0A" and m: "?m = rfind w c"
        by (cases "rfind w (CHR ''.'') \<le> rfind w (CHR 0x0A)") (auto simp: max_def)
      from le m have nn: "0 \<le> rfind w c" by simp
      from rfind_nth [OF nn] c have "?Q (nat (rfind w c))" by auto
      moreover from rfind_lt [of w c] nn have "nat (rfind w c) < length w" by simp
      ultimately have "nat (rfind w c) \<le> b" by (intro b(3))
      with nn m show ?thesis by simp
    qed
    with le have "?m = int b" by simp
    moreover have "spec_break_point w = Some b"
      unfolding spec_break_point_def Cons b_def by simp
    ultimately show ?thesis
      by (simp add: Let_def)
  qed
qed

lemma slice_shrink:
  assumes low: "- int (length t) \<le> c" and inner: "c + 800 < int (length t)"
    and m: "560 < m" "m < int (length (slice t c (c + 800)))"
  shows "slice t c (c + m + 1) = take (nat m + 1) (slice t c (c + 800))"
proof -
  define n where "n = length t"
  define lo where "lo = slice_index n c"
  define hi where "hi = slice_index n (c + 800)"
  from m have ne: "slice t c (c + 800) \<noteq> []" by auto
  then have lohi: "lo < hi" and w: "slice t c (c + 800) = take (hi - lo) (drop lo t)"
    by (auto simp: slice_def Let_def lo_def hi_def n_def split: if_splits)
  have len: "length (slice t c (c + 800)) = hi - lo"
  proof -
    have "hi \<le> n" by (auto simp: hi_def slice_index_def)
    then show ?thesis
      unfolding w using lohi by (simp add: n_def)
  qed
  have idx: "slice_index n (c + m + 1) = lo + nat m + 1"
  proof (cases "0 \<le> c")
    case True
    with inner have "lo = nat c" and "hi = nat c + 800"
      by (simp_all add: lo_def hi_def slice_index_def n_def nat_add_distrib)
    with True m len inner show ?thesis
      by (simp add: slice_index_def n_def nat_add_distrib)
  next
    case False
    with low have lo: "int lo = c + int n"
      by (simp add: lo_def slice_index_def n_def)
    show ?thesis
    proof (cases "c + 800 < 0")
      case True
      with low have "int hi = c + 800 + int n"
        by (simp add: hi_def slice_index_def n_def)
      with lo m len True low show ?thesis
        by (simp add: slice_index_def n_def nat_add_distrib)
    next
      case nonneg: False
      with inner have "int hi = c + 800"
        by (simp add: hi_def slice_index_def n_def)
      with lo m len lohi have "560 < 800 - int n"
        by linarith
      with inner low have False
        unfolding n_def by linarith
      then show ?thesis ..
    qed
  qed
  have "slice t c (c + m + 1) = take (nat m + 1) (drop lo t)"
    using idx by (simp add: slice_def Let_def lo_def [symmetric] n_def [symmetric])
  moreover have "take (nat m + 1) (slice t c (c + 800)) = take (nat m + 1) (drop lo t)"
    unfolding w using m len by (simp add: min_def)
  ultimately show ?thesis by simp
qed

lemma window_follows_spec:
  assumes "- int (length t) \<le> c"
  shows "window t c = spec_window t c"
proof (cases "c + 800 < int (length t)")
  case False
  then show ?thesis
    by (simp add: window_def spec_window_def Let_def chunk_size_def)
next
  case True
  then have e: "min (c + 800) (int (length t)) = c + 800" by simp
  define w where "w = slice t c (c + 800)"
  define m where "m = max (rfind w (CHR ''.'')) (rfind w (CHR 0x0A))"
  have code: "window t c = (if 560 < m then slice t c (c + m + 1) else w)"
    using True by (simp add: window_def Let_def chunk_size_def e w_def m_def)
  have spec: "spec_window t c = (if 0 \<le> m \<and> 560 < m then take (nat m + 1) w else w)"
    using True
    by (auto simp: spec_window_def Let_def e w_def [symmetric] spec_break_point_rfind
          m_def [symmetric])
  show ?thesis
  proof (cases "560 < m")
    case False
    with code spec show ?thesis by simp
  next
    case big: True
    have "m < int (length w)"
      unfolding m_def using rfind_lt [of w "CHR ''.''"] rfind_lt [of w "CHR 0x0A"] by simp
    from slice_shrink [OF assms True big this [unfolded w_def]] big code spec
    show ?thesis by (simp add: w_def)
  qed
qed


section \<open>The loops of the chunker\<close>

lemma chunk_projections:
  "text' (metadata.extend m (chunk.fields i t)) = t"
  "id' (metadata.extend m (chunk.fields i t)) = i"
  "topic (metadata.extend m (chunk.fields i t)) = topic m"
  "task (metadata.extend m (chunk.fields i t)) = task m"
  "role_min (metadata.extend m (chunk.fields i t)) = role_min m"
  "page (metadata.extend m (chunk.fields i t)) = page m"
  by (simp_all add: metadata.defs chunk.defs)

lemma chunks_loop_body:
  "chunks (loop_body pg s) =
     (let w = strip (window (page_text pg) (start s))
      in if 100 < length w
         then chunks s @ [metadata.extend (detect_metadata w (page_num pg))
                            (chunk.fields (''chunk-'' @ str (chunk_counter s)) w)]
         else chunks s)"
  by (simp add: loop_body_def Let_def)

lemma chunk_counter_loop_body:
  "chunk_counter (loop_body pg s) =
     (if 100 < length (strip (window (page_text pg) (start s)))
      then chunk_counter s + 1 else chunk_counter s)"
  by (simp add: loop_body_def Let_def)

lemma start_loop_body: "start (loop_body pg s) = start s + (int (length (strip (window (page_text pg) (start s)))) - chunk_overlap)"
  by (simp add: loop_body_def Let_def)

lemma start_loop_body_less:
  assumes "start s < int (length (page_text pg))"
  shows "start (loop_body pg s) < int (length (page_text pg))"
proof -
  let ?n = "length (page_text pg)"
  let ?w = "window (page_text pg) (start s)"
  have a: "length (strip ?w) \<le> ?n - slice_index ?n (start s)"
    using length_strip_le [of ?w] length_window_le [of "page_text pg" "start s"] by linarith
  have "start s + int (length (strip ?w)) \<le> int ?n"
  proof (cases "0 \<le> start s")
    case True
    from True assms have "int (slice_index ?n (start s)) = start s"
      by (rule slice_index_nonneg)
    with a assms show ?thesis by linarith
  next
    case False
    with a show ?thesis by linarith
  qed
  then show ?thesis
    by (simp add: start_loop_body chunk_overlap_def)
qed

lemma while_loop_Some_exit:
  "while_loop pg s = Some s' \<Longrightarrow> \<not> start s < int (length (page_text pg))"
proof (induction rule: while_loop.raw_induct [rotated 1, consumes 1])
  case (1 while_loop pg s s')
  show ?case
  proof
    assume lt: "start s < int (length (page_text pg))"
    with 1 have "while_loop pg (loop_body pg s) = Some s'" by simp
    then have "\<not> start (loop_body pg s) < int (length (page_text pg))" by (rule 1)
    with start_loop_body_less [OF lt] show False by contradiction
  qed
qed

lemma while_loop_None:
  "start s < int (length (page_text pg)) \<Longrightarrow> while_loop pg s = None"
  using while_loop_Some_exit [of pg s] by (cases "while_loop pg s") auto

lemma while_loop_exit:
  "\<not> start s < int (length (page_text pg)) \<Longrightarrow> while_loop pg s = Some s"
  by (simp add: while_loop.simps)

lemma while_loop_from_0:
  "while_loop pg (s\<lparr>start := 0\<rparr>) = (if page_text pg = [] then Some (s\<lparr>start := 0\<rparr>) else None)"
  by (simp add: while_loop_None while_loop_exit)

lemma for_pages_eq:
  "for_pages pages s =
     (if \<exists>pg \<in> set pages. page_text pg \<noteq> [] then None
      else Some (if pages = [] then s else s\<lparr>start := 0\<rparr>))"
  by (induction pages arbitrary: s) (auto simp: while_loop_from_0)

lemma create_chunks_eq:
  "create_chunks pages counter =
     (if \<exists>pg \<in> set pages. page_text pg \<noteq> [] then None else Some ([], counter))"
  by (simp add: create_chunks_def for_pages_eq)

lemma texts_loop_body:
  "map text' (chunks (loop_body pg s)) =
     map text' (chunks s) @
     (if 100 < length (strip (window (page_text pg) (start s)))
      then [strip (window (page_text pg) (start s))] else [])"
  by (simp add: chunks_loop_body Let_def chunk_projections)

lemma ids_loop_body:
  "map id' (chunks (loop_body pg s)) =
     map id' (chunks s) @
     (if 100 < length (strip (window (page_text pg) (start s)))
      then [''chunk-'' @ str (chunk_counter s)] else [])"
  by (simp add: chunks_loop_body Let_def chunk_projections)

lemma reaches_iterations:
  assumes "reaches pages counter (pg # todo) s" and "start s < int (length (page_text pg))"
  shows "reaches pages counter (pg # todo) ((loop_body pg ^^ n) s)
         \<and> start ((loop_body pg ^^ n) s) < int (length (page_text pg))"
proof (induction n)
  case 0
  from assms show ?case by simp
next
  case (Suc n)
  then show ?case
    by (simp add: reaches.iterate start_loop_body_less)
qed

lemma decimal_value_snoc:
  "decimal_value (ds @ [c]) = 10 * decimal_value ds + (of_char c - 48)"
  by (simp add: decimal_value_def)

lemma decimal_value_digit: "d < 10 \<Longrightarrow> decimal_value [char_of (48 + d)] = d"
  by (simp add: decimal_value_def)

lemma decimal_value_str: "decimal_value (str n) = n"
proof (induction n rule: str.induct)
  case (1 n)
  show ?case
  proof (cases "n < 10")
    case True
    then show ?thesis
      by (simp add: str.simps [of n] decimal_value_digit)
  next
    case False
    with 1 have "decimal_value (str (n div 10)) = n div 10" by simp
    moreover have "of_char (char_of (48 + n mod 10) :: char) - 48 = n mod 10"
      by simp
    ultimately show ?thesis
      using False by (simp add: str.simps [of n] decimal_value_snoc)
  qed
qed

lemma chunk_number_id: "chunk_number (''chunk-'' @ str n) = n"
  by (simp add: chunk_number_def decimal_value_str)

lemma strip_strip: "strip (strip s) = strip s"
proof (cases "strip s = []")
  case True
  show ?thesis unfolding True by (simp add: strip_def)
next
  case False
  from strip_ends [OF False] have h: "\<not> isspace (hd (strip s))" and l: "\<not> isspace (last (strip s))"
    by simp_all
  from False h have "dropWhile isspace (strip s) = strip s"
    by (cases "strip s") simp_all
  moreover from False l have "dropWhile isspace (rev (strip s)) = rev (strip s)"
    by (cases "rev (strip s)") (simp_all add: last_rev [symmetric] hd_rev)
  ultimately show ?thesis
    by (simp add: strip_def [of "strip s"])
qed

lemma length_chunks_loop_body:
  "length (chunks (loop_body pg s)) =
     (if 100 < length (strip (window (page_text pg) (start s)))
      then length (chunks s) + 1 else length (chunks s))"
  by (simp add: chunks_loop_body Let_def)

lemma reaches_ids:
  "reaches pages counter todo s \<Longrightarrow>
     chunk_counter s = counter + length (chunks s)
     \<and> map id' (chunks s) = map (\<lambda>n. ''chunk-'' @ str n) [counter..<counter + length (chunks s)]"
proof (induction rule: reaches.induct)
  case enter
  show ?case by simp
next
  case (iterate pg todo s)
  then show ?case
    by (simp add: chunk_counter_loop_body ids_loop_body length_chunks_loop_body)
next
  case (next_page pg todo s)
  then show ?case by simp
qed

lemma reaches_texts:
  "reaches pages counter todo s \<Longrightarrow>
     \<forall>c \<in> set (chunks s). 100 < length (text' c) \<and> strip (text' c) = text' c"
proof (induction rule: reaches.induct)
  case enter
  show ?case by simp
next
  case (iterate pg todo s)
  then show ?case
    by (auto simp: chunks_loop_body Let_def chunk_projections strip_strip)
next
  case (next_page pg todo s)
  then show ?case by simp
qed

lemma short_page_iterations:
  assumes "length (strip (page_text pg)) \<le> 100"
  shows "chunks ((loop_body pg ^^ n) s) = chunks s
         \<and> chunk_counter ((loop_body pg ^^ n) s) = chunk_counter s"
proof (induction n)
  case 0
  show ?case by simp
next
  case (Suc n)
  have "length (strip (window (page_text pg) (start ((loop_body pg ^^ n) s)))) \<le> 100"
    using length_strip_window [of "page_text pg"] assms by (meson le_trans)
  with Suc show ?case
    by (simp add: chunks_loop_body chunk_counter_loop_body Let_def)
qed

lemma reaches_short_pages:
  assumes "\<forall>pg \<in> set pages. length (strip (page_text pg)) \<le> 100"
  shows "reaches pages counter todo s \<Longrightarrow> set todo \<subseteq> set pages \<and> chunks s = []"
proof (induction rule: reaches.induct)
  case enter
  show ?case by (simp add: entry_state_def)
next
  case (iterate pg todo s)
  then have "length (strip (page_text pg)) \<le> 100"
    using assms by auto
  then have "length (strip (window (page_text pg) (start s))) \<le> 100"
    using length_strip_window [of "page_text pg" "start s"] by (rule order_trans [rotated])
  with iterate show ?case
    by (simp add: chunks_loop_body Let_def)
next
  case (next_page pg todo s)
  then show ?case by simp
qed

text \<open>
  What \<open>create_chunks\<close> returns is a point of the run: the step relation covers the
  results of the function.
\<close>

lemma while_loop_reaches:
  "while_loop pg s = Some s' \<Longrightarrow>
   (\<forall>pages counter todo. reaches pages counter (pg # todo) s \<longrightarrow>
      reaches pages counter (pg # todo) s') \<and> \<not> start s' < int (length (page_text pg))"
proof (induction rule: while_loop.raw_induct [rotated 1, consumes 1])
  case (1 while_loop pg s s')
  show ?case
  proof (cases "start s < int (length (page_text pg))")
    case True
    with 1(2) have "while_loop pg (loop_body pg s) = Some s'" by simp
    from 1(1) [OF this] True show ?thesis
      by (blast intro: reaches.iterate)
  next
    case False
    with 1(2) show ?thesis by simp
  qed
qed

lemma for_pages_reaches:
  "for_pages todo s = Some s' \<Longrightarrow> reaches pages counter todo s \<Longrightarrow> start s = 0 \<Longrightarrow>
   \<exists>s''. reaches pages counter [] s'' \<and> chunks s'' = chunks s'
        \<and> chunk_counter s'' = chunk_counter s'"
proof (induction todo arbitrary: s)
  case Nil
  then show ?case by auto
next
  case (Cons pg todo)
  from Cons.prems(3) have same: "s\<lparr>start := 0\<rparr> = s" by simp
  from Cons.prems(1) obtain s1 where s1: "while_loop pg s = Some s1"
    and rest: "for_pages todo s1 = Some s'"
    by (auto simp: same split: option.splits)
  from while_loop_reaches [OF s1] Cons.prems(2)
  have "reaches pages counter (pg # todo) s1" and "\<not> start s1 < int (length (page_text pg))"
    by blast+
  then have r: "reaches pages counter todo (s1\<lparr>start := 0\<rparr>)"
    by (rule reaches.next_page)
  show ?case
  proof (cases todo)
    case Nil
    with rest r show ?thesis by auto
  next
    case (Cons pg' todo')
    with rest have "for_pages todo (s1\<lparr>start := 0\<rparr>) = Some s'" by simp
    from Cons.IH [OF this r] show ?thesis by simp
  qed
qed

lemma create_chunks_reaches:
  "create_chunks pages counter = Some (cs, n) \<Longrightarrow>
   \<exists>s. reaches pages counter [] s \<and> chunks s = cs \<and> chunk_counter s = n"
proof -
  assume "create_chunks pages counter = Some (cs, n)"
  then obtain s' where "for_pages pages (entry_state counter) = Some s'"
    and "chunks s' = cs" and "chunk_counter s' = n"
    by (auto simp: create_chunks_def split: option.splits)
  with for_pages_reaches [OF this(1) reaches.enter] show ?thesis
    by auto
qed

section \<open>The page of 120 letters\<close>

text \<open>The windows of the page at the cursors 0, -30 and -150.\<close>

lemma letters_window_0:
  "strip (window (replicate 120 (CHR ''a'')) 0) = replicate 120 (CHR ''a'')"
  by code_simp

lemma letters_window_1:
  "strip (window (replicate 120 (CHR ''a'')) (- 30)) = replicate 30 (CHR ''a'')"
  by code_simp

lemma letters_window_2:
  "strip (window (replicate 120 (CHR ''a'')) (- 150)) = replicate 120 (CHR ''a'')"
  by code_simp

lemma letters_first:
  "0 < int (length (page_text letters_page))"
  "length (strip (window (page_text letters_page) 0)) = 120"
  "start (loop_body letters_page (entry_state 0)) = - 30"
  by (simp_all add: letters_page_def start_loop_body letters_window_0 chunk_overlap_def)

lemma letters_third:
  "map text' (chunks ((loop_body letters_page ^^ 3) (entry_state 0))) =
     [replicate 120 (CHR ''a''), replicate 120 (CHR ''a'')]"
proof -
  define s1 where "s1 = loop_body letters_page (entry_state 0)"
  define s2 where "s2 = loop_body letters_page s1"
  define s3 where "s3 = loop_body letters_page s2"
  have tx [simp]: "page_text letters_page = replicate 120 (CHR ''a'')"
    by (simp add: letters_page_def)
  have a: "start s1 = - 30" "map text' (chunks s1) = [replicate 120 (CHR ''a'')]"
    by (simp_all add: s1_def start_loop_body texts_loop_body entry_state_def letters_window_0
          chunk_overlap_def)
  have b: "start s2 = - 150" "map text' (chunks s2) = [replicate 120 (CHR ''a'')]"
    by (simp_all add: s2_def start_loop_body texts_loop_body a letters_window_1
          chunk_overlap_def)
  have "map text' (chunks s3) = [replicate 120 (CHR ''a''), replicate 120 (CHR ''a'')]"
    by (simp add: s3_def texts_loop_body b letters_window_2)
  moreover have "s3 = (loop_body letters_page ^^ 3) (entry_state 0)"
    by (simp add: s3_def s2_def s1_def eval_nat_numeral)
  ultimately show ?thesis by simp
qed

lemma letters_reaches:
  "reaches [letters_page] 0 [letters_page] ((loop_body letters_page ^^ n) (entry_state 0))"
  using reaches_iterations [OF reaches.enter, where pg = letters_page and todo = "[]"
      and counter = 0 and n = n] letters_first(1)
  by simp

section \<open>The claims about the chunker\<close>

text \<open>
  Claim C3. There is a page text with a trimmed window shorter than the overlap of
  150, so that the cursor does not advance; the loop then emits the same window
  again and never ends. The page of 120 letters is one: its first window is the whole
  text, the cursor falls to -30, the third iteration emits the whole text a second
  time, and neither the loop nor \<open>create_chunks\<close> returns.
\<close>

theorem chunker_can_stall:
  "\<exists>pg.
     (\<exists>s. reaches [pg] 0 [pg] s \<and> start s < int (length (page_text pg))
          \<and> int (length (strip (window (page_text pg) (start s)))) < chunk_overlap
          \<and> start (loop_body pg s) \<le> start s)
     \<and> (\<exists>s. reaches [pg] 0 [pg] s \<and> \<not> distinct (map text' (chunks s)))
     \<and> while_loop pg (entry_state 0) = None
     \<and> create_chunks [pg] 0 = None"
proof -
  have first: "reaches [letters_page] 0 [letters_page] (entry_state 0)
      \<and> start (entry_state 0) < int (length (page_text letters_page))
      \<and> int (length (strip (window (page_text letters_page) (start (entry_state 0)))))
          < chunk_overlap
      \<and> start (loop_body letters_page (entry_state 0)) \<le> start (entry_state 0)"
    using reaches.enter [of "[letters_page]" 0] letters_first(1)
    by (simp add: letters_first(2,3) chunk_overlap_def)
  have dup: "\<not> distinct (map text' (chunks ((loop_body letters_page ^^ 3) (entry_state 0))))"
    by (simp add: letters_third)
  have "while_loop letters_page (entry_state 0) = None"
    by (rule while_loop_None) (simp add: letters_page_def)
  moreover have "create_chunks [letters_page] 0 = None"
    by (simp add: create_chunks_eq letters_page_def)
  ultimately show ?thesis
    using first dup letters_reaches [of 3] by blast
qed

text \<open>
  Claim C4. Every chunk that the chunker has emitted, at any point of a run over any
  pages, has a trimmed text of more than 100 characters. An iteration whose trimmed
  window is longer than 100 appends one chunk with that text; one whose trimmed
  window has at most 100 characters appends nothing and leaves the counter alone
  (the loop body has no other outcome, so nothing is raised). On a page whose trimmed
  text has at most 100 characters no iteration emits a chunk, whatever the cursor,
  and a run over such pages never holds a chunk.
\<close>

theorem emitted_chunks_longer_than_100:
  "(reaches pages counter todo s \<longrightarrow>
      (\<forall>c \<in> set (chunks s). 100 < length (text' c) \<and> strip (text' c) = text' c))
   \<and> (100 < length (strip (window (page_text pg) (start s'))) \<longrightarrow>
      (\<exists>c. chunks (loop_body pg s') = chunks s' @ [c]
          \<and> text' c = strip (window (page_text pg) (start s'))))
   \<and> (length (strip (window (page_text pg) (start s'))) \<le> 100 \<longrightarrow>
      chunks (loop_body pg s') = chunks s'
      \<and> chunk_counter (loop_body pg s') = chunk_counter s')
   \<and> (length (strip (page_text pg)) \<le> 100 \<longrightarrow>
      (\<forall>n. chunks ((loop_body pg ^^ n) s') = chunks s'))
   \<and> ((\<forall>p \<in> set pages. length (strip (page_text p)) \<le> 100) \<longrightarrow>
      reaches pages counter todo s \<longrightarrow> chunks s = [])"
proof (intro conjI impI)
  assume "reaches pages counter todo s"
  then show "\<forall>c \<in> set (chunks s). 100 < length (text' c) \<and> strip (text' c) = text' c"
    by (rule reaches_texts)
next
  assume "100 < length (strip (window (page_text pg) (start s')))"
  then show "\<exists>c. chunks (loop_body pg s') = chunks s' @ [c]
      \<and> text' c = strip (window (page_text pg) (start s'))"
    by (simp add: chunks_loop_body Let_def chunk_projections)
next
  assume "length (strip (window (page_text pg) (start s'))) \<le> 100"
  then show "chunks (loop_body pg s') = chunks s'"
    and "chunk_counter (loop_body pg s') = chunk_counter s'"
    by (simp_all add: chunks_loop_body chunk_counter_loop_body Let_def)
next
  assume "length (strip (page_text pg)) \<le> 100"
  then show "\<forall>n. chunks ((loop_body pg ^^ n) s') = chunks s'"
    by (simp add: short_page_iterations)
next
  assume "\<forall>p \<in> set pages. length (strip (page_text p)) \<le> 100"
    and "reaches pages counter todo s"
  then show "chunks s = []"
    using reaches_short_pages by blast
qed

theorem emitted_chunks_longer_than_100_witness:
  "reaches [letters_page] 0 [letters_page] ((loop_body letters_page ^^ 3) (entry_state 0))
   \<and> length (chunks ((loop_body letters_page ^^ 3) (entry_state 0))) = 2
   \<and> 100 < length (text' (chunks ((loop_body letters_page ^^ 3) (entry_state 0)) ! 0))
   \<and> 100 < length (text' (chunks ((loop_body letters_page ^^ 3) (entry_state 0)) ! 1))
   \<and> length (chunks (loop_body letters_page (entry_state 0))) = 1
   \<and> chunks ((loop_body \<lparr>page_num = 1, page_text = ''  hello  ''\<rparr> ^^ 4) (entry_state 0)) = []"
proof -
  let ?s3 = "(loop_body letters_page ^^ 3) (entry_state 0)"
  let ?hello = "\<lparr>page_num = 1, page_text = ''  hello  ''\<rparr>"
  have r: "reaches [letters_page] 0 [letters_page] ?s3"
    by (rule letters_reaches)
  have len: "length (chunks ?s3) = 2"
    using arg_cong [OF letters_third, of length] by simp
  have long: "100 < length (strip (window (page_text letters_page) (start (entry_state 0))))"
    by (simp add: letters_first(2))
  have short: "length (strip (page_text ?hello)) \<le> 100"
    by (simp add: strip_def isspace_def)
  note inst = emitted_chunks_longer_than_100
    [of "[letters_page]" 0 "[letters_page]" ?s3 letters_page "entry_state 0"]
  from inst r have "\<forall>c \<in> set (chunks ?s3). 100 < length (text' c)"
    by blast
  with len have "100 < length (text' (chunks ?s3 ! 0))" "100 < length (text' (chunks ?s3 ! 1))"
    by simp_all
  moreover from inst long have "length (chunks (loop_body letters_page (entry_state 0))) = 1"
    by (auto simp: entry_state_def)
  moreover from emitted_chunks_longer_than_100 [of _ _ _ _ ?hello "entry_state 0"] short
  have "chunks ((loop_body ?hello ^^ 4) (entry_state 0)) = []"
    by (simp add: entry_state_def)
  ultimately show ?thesis
    using r len by simp
qed

text \<open>
  Claim C5. At every point of a run of the chunker entered with the counter at 0,
  over any list of pages, the chunk emitted as number \<open>n\<close> has the id
  \<^verbatim>\<open>chunk-<n>\<close>, the decimal form of the counter value: the counter equals the
  number of chunks emitted, the ids are pairwise distinct, and the numbers read back
  from them increase strictly in emission order.
\<close>

theorem chunk_ids_count_up:
  "reaches pages 0 todo s \<Longrightarrow>
     map id' (chunks s) = map (\<lambda>n. ''chunk-'' @ str n) [0..<length (chunks s)]
     \<and> chunk_counter s = length (chunks s)
     \<and> distinct (map id' (chunks s))
     \<and> sorted_wrt (<) (map chunk_number (map id' (chunks s)))"
proof -
  assume "reaches pages 0 todo s"
  from reaches_ids [OF this]
  have c: "chunk_counter s = length (chunks s)"
    and ids: "map id' (chunks s) = map (\<lambda>n. ''chunk-'' @ str n) [0..<length (chunks s)]"
    by simp_all
  have nums: "map chunk_number (map id' (chunks s)) = [0..<length (chunks s)]"
    unfolding ids map_map comp_def chunk_number_id by simp
  then have "distinct (map chunk_number (map id' (chunks s)))"
    by simp
  then have "distinct (map id' (chunks s))"
    by (rule distinct_map [THEN iffD1, THEN conjunct1])
  with c ids nums show ?thesis
    by (simp add: sorted_wrt_upt del: map_map)
qed

theorem chunk_ids_count_up_witness:
  "reaches [letters_page] 0 [letters_page] ((loop_body letters_page ^^ 3) (entry_state 0))
   \<and> map id' (chunks ((loop_body letters_page ^^ 3) (entry_state 0))) = [''chunk-0'', ''chunk-1'']
   \<and> chunk_counter ((loop_body letters_page ^^ 3) (entry_state 0)) = 2
   \<and> distinct (map id' (chunks ((loop_body letters_page ^^ 3) (entry_state 0))))
   \<and> map chunk_number (map id' (chunks ((loop_body letters_page ^^ 3) (entry_state 0)))) = [0, 1]"
proof -
  let ?s3 = "(loop_body letters_page ^^ 3) (entry_state 0)"
  have r: "reaches [letters_page] 0 [letters_page] ?s3"
    by (rule letters_reaches)
  have len: "length (chunks ?s3) = 2"
    using arg_cong [OF letters_third, of length] by simp
  have two: "[0..<2] = [0, Suc 0]"
    by (simp add: upt_rec)
  have "str 0 = ''0''"
    by code_simp
  moreover have "str (Suc 0) = ''1''"
    by code_simp
  ultimately have digits: "str 0 = ''0''" "str (Suc 0) = ''1''"
    by simp_all
  note inst = chunk_ids_count_up [OF r, unfolded len]
  from inst have ids: "map id' (chunks ?s3) = [''chunk-0'', ''chunk-1'']"
    by (simp add: two digits)
  from inst have "chunk_counter ?s3 = 2" and "distinct (map id' (chunks ?s3))"
    by blast+
  moreover have "map chunk_number (map id' (chunks ?s3)) = [0, 1]"
    unfolding ids by (simp add: chunk_number_def decimal_value_def)
  ultimately show ?thesis
    using r ids by blast
qed

section \<open>Pages on which the loop is traced\<close>

lemma slice_whole: "slice s 0 (int (length s)) = s"
  by (simp add: slice_def slice_index_def Let_def)

lemma window_whole: "length t \<le> 800 \<Longrightarrow> window t 0 = t"
  by (simp add: window_def Let_def chunk_size_def slice_whole)

lemma prose_length: "length (page_text prose_page) = 150"
  unfolding prose_page_def by simp

lemma prose_strip: "strip (page_text prose_page) = page_text prose_page"
  unfolding prose_page_def by code_simp

lemma prose_metadata:
  "detect_metadata (page_text prose_page) (page_num prose_page) =
     \<lparr>topic = ''general'', task = ''reference'', role_min = 1, page = 1\<rparr>"
  unfolding prose_page_def by code_simp

lemma two_part_length: "length (page_text two_part_page) = 201"
  unfolding two_part_page_def by (simp add: length_concat sum_list_replicate)

lemma two_part_strip: "strip (page_text two_part_page) = page_text two_part_page"
  unfolding two_part_page_def by code_simp

lemma two_part_second:
  "strip (window (page_text two_part_page) 51) = drop 51 (page_text two_part_page)"
  unfolding two_part_page_def by code_simp

lemma stall_at_zero:
  assumes "length (page_text pg) = 150" and "strip (page_text pg) = page_text pg"
    and "start s = 0"
  shows "start ((loop_body pg ^^ n) s) = 0
     \<and> map text' (chunks ((loop_body pg ^^ n) s)) =
         map text' (chunks s) @ replicate n (page_text pg)
     \<and> chunk_counter ((loop_body pg ^^ n) s) = chunk_counter s + n"
proof (induction n)
  case 0
  from assms show ?case by simp
next
  case (Suc n)
  have "window (page_text pg) 0 = page_text pg"
    using assms(1) by (simp add: window_whole)
  with Suc assms show ?case
    by (simp add: start_loop_body texts_loop_body chunk_counter_loop_body chunk_overlap_def
          replicate_append_same)
qed

lemma prose_first:
  "chunks (loop_body prose_page (entry_state 0)) =
     [\<lparr>topic = ''general'', task = ''reference'', role_min = 1, page = 1,
       id' = ''chunk-0'', text' = page_text prose_page\<rparr>]"
proof -
  have "window (page_text prose_page) 0 = page_text prose_page"
    by (simp add: window_whole prose_length)
  moreover have "str 0 = ''0''"
    by code_simp
  ultimately show ?thesis
    by (simp add: chunks_loop_body Let_def prose_strip prose_length prose_metadata
          metadata.defs chunk.defs)
qed

text \<open>
  Claim C7 says that a page of exactly 150 characters of plain prose gives exactly
  one chunk, tagged general, reference, 1, page 1. The first iteration does emit that
  chunk, but the trimmed window is 150 long, so the cursor advances by 0: every
  further iteration finds the cursor at 0 again and emits the same text under the
  next id, and \<open>create_chunks\<close> never returns.
\<close>

theorem plain_page_never_finishes:
  "length (page_text prose_page) = 150
   \<and> chunks (loop_body prose_page (entry_state 0)) =
       [\<lparr>topic = ''general'', task = ''reference'', role_min = 1, page = 1,
         id' = ''chunk-0'', text' = page_text prose_page\<rparr>]
   \<and> reaches [prose_page] 0 [prose_page] ((loop_body prose_page ^^ n) (entry_state 0))
   \<and> start ((loop_body prose_page ^^ n) (entry_state 0)) = 0
   \<and> map text' (chunks ((loop_body prose_page ^^ n) (entry_state 0))) =
       replicate n (page_text prose_page)
   \<and> chunk_counter ((loop_body prose_page ^^ n) (entry_state 0)) = n
   \<and> create_chunks [prose_page] 0 = None"
proof -
  have ne: "start (entry_state 0) < int (length (page_text prose_page))"
    by (simp add: prose_length)
  have "reaches [prose_page] 0 [prose_page] ((loop_body prose_page ^^ n) (entry_state 0))"
    using reaches_iterations [OF reaches.enter ne] by blast
  moreover have "create_chunks [prose_page] 0 = None"
    using prose_length by (auto simp: create_chunks_eq)
  ultimately show ?thesis
    using stall_at_zero [OF prose_length prose_strip, of "entry_state 0" n] prose_first
    by (simp add: prose_length)
qed

text \<open>
  Claim C6 as stated fails on the page it names: the text is not longer than 800
  characters, and \<open>create_chunks\<close> does not return on it.
\<close>

theorem two_part_page_counterexample:
  "\<not> 800 < length (page_text two_part_page) \<and> create_chunks [two_part_page] 0 = None"
  using two_part_length by (auto simp: create_chunks_eq)

text \<open>
  Claim C6, amended. The text \<^verbatim>\<open>"A." * 50 + "\n" + "B." * 50\<close> has length 201.
  On the page that holds it the chunker emits at least two chunks: the first is the
  whole text, which ends at its end, position 201, after a period; the cursor then
  stands at 51 = 201 - 150, and the second chunk is the text from position 51 on.
\<close>

theorem two_part_page_two_chunks:
  "length (page_text two_part_page) = 201
   \<and> last (page_text two_part_page) = CHR ''.''
   \<and> reaches [two_part_page] 0 [two_part_page] ((loop_body two_part_page ^^ 2) (entry_state 0))
   \<and> start (loop_body two_part_page (entry_state 0)) = 51
   \<and> map text' (chunks ((loop_body two_part_page ^^ 2) (entry_state 0))) =
       [page_text two_part_page, slice (page_text two_part_page) 51 201]
   \<and> map id' (chunks ((loop_body two_part_page ^^ 2) (entry_state 0))) =
       [''chunk-0'', ''chunk-1'']"
proof -
  define s1 where "s1 = loop_body two_part_page (entry_state 0)"
  define s2 where "s2 = loop_body two_part_page s1"
  have w0: "strip (window (page_text two_part_page) 0) = page_text two_part_page"
    by (simp add: window_whole two_part_length two_part_strip)
  have d: "length (drop 51 (page_text two_part_page)) = 150"
    by (simp add: two_part_length)
  have "str 0 = ''0''"
    by code_simp
  moreover have "str (Suc 0) = ''1''"
    by code_simp
  ultimately have digits: "str 0 = ''0''" "str (Suc 0) = ''1''"
    by simp_all
  have a: "start s1 = 51" "map text' (chunks s1) = [page_text two_part_page]"
    "map id' (chunks s1) = [''chunk-0'']" "chunk_counter s1 = Suc 0"
    by (simp_all add: s1_def start_loop_body texts_loop_body ids_loop_body
          chunk_counter_loop_body w0 two_part_length chunk_overlap_def digits)
  have b: "map text' (chunks s2) = [page_text two_part_page, drop 51 (page_text two_part_page)]"
    "map id' (chunks s2) = [''chunk-0'', ''chunk-1'']"
    by (simp_all add: s2_def texts_loop_body ids_loop_body a two_part_second two_part_length
          digits)
  have s2: "(loop_body two_part_page ^^ 2) (entry_state 0) = s2"
    by (simp add: s2_def s1_def eval_nat_numeral)
  have sl: "slice (page_text two_part_page) 51 201 = drop 51 (page_text two_part_page)"
    by (simp add: slice_def slice_index_def Let_def two_part_length)
  have ne: "start (entry_state 0) < int (length (page_text two_part_page))"
    by (simp add: two_part_length)
  have r: "reaches [two_part_page] 0 [two_part_page]
      ((loop_body two_part_page ^^ 2) (entry_state 0))"
    using reaches_iterations [OF reaches.enter ne] by blast
  have "last (page_text two_part_page) = CHR ''.''"
    unfolding two_part_page_def by code_simp
  with r a b show ?thesis
    unfolding s2 sl by (simp add: two_part_length s1_def [symmetric])
qed

section \<open>The window below the start of the text\<close>

lemma isspace_space [simp]: "isspace (CHR '' '')" and not_isspace_dot [simp]: "\<not> isspace (CHR ''.'')"
  by (simp_all add: isspace_def)

lemma strip_spaces [simp]: "strip (replicate a (CHR '' '')) = []"
  by (simp add: strip_def)

lemma dropWhile_replicate_append:
  "P x \<Longrightarrow> dropWhile P (replicate a x @ w) = dropWhile P w"
  by (induction a) simp_all

lemma strip_leading_spaces [simp]: "strip (replicate a (CHR '' '') @ w) = strip w"
  by (simp add: strip_def dropWhile_replicate_append)

lemma strip_dot_spaces [simp]: "strip (CHR ''.'' # replicate b (CHR '' '')) = ''.''"
  by (simp add: strip_def dropWhile_replicate_append)

lemma strip_dot [simp]: "strip ''.'' = ''.''"
  by (simp add: strip_def)

lemma dotted_windows:
  "strip (window (page_text dotted_page) 0) = ''.''"
  "strip (window (page_text dotted_page) (- 149)) = ''.''"
  "strip (window (page_text dotted_page) (- 298)) = []"
  "strip (window (page_text dotted_page) (- 448)) = []"
  "strip (window (page_text dotted_page) (- 598)) = []"
  "strip (window (page_text dotted_page) (- 748)) = []"
  "strip (window (page_text dotted_page) (- 898)) = []"
  by (simp_all add: dotted_page_def window_def Let_def chunk_size_def slice_def slice_index_def
        rfind_append rfind_replicate)

lemma dotted_spec_window:
  "strip (spec_window (page_text dotted_page) (- 898)) = ''.''"
  by (simp add: dotted_page_def spec_window_def spec_break_point_rfind Let_def slice_def
        slice_index_def rfind_append rfind_replicate)

lemma loop_body_follows_spec:
  assumes "- int (length (page_text pg)) \<le> start s"
  shows "(strip (window (page_text pg) (start s)), start (loop_body pg s)) =
           spec_step (page_text pg) (start s)"
  by (simp add: spec_step_def Let_def start_loop_body chunk_overlap_def
        window_follows_spec [OF assms])

lemma dotted_cursors:
  "start ((loop_body dotted_page ^^ 6) (entry_state 0)) = - 898"
  "start ((loop_body dotted_page ^^ 7) (entry_state 0)) = - 1048"
proof -
  define s1 where "s1 = loop_body dotted_page (entry_state 0)"
  define s2 where "s2 = loop_body dotted_page s1"
  define s3 where "s3 = loop_body dotted_page s2"
  define s4 where "s4 = loop_body dotted_page s3"
  define s5 where "s5 = loop_body dotted_page s4"
  define s6 where "s6 = loop_body dotted_page s5"
  define s7 where "s7 = loop_body dotted_page s6"
  have c1: "start s1 = - 149"
    by (simp add: s1_def start_loop_body dotted_windows chunk_overlap_def)
  have c2: "start s2 = - 298"
    by (simp add: s2_def start_loop_body c1 dotted_windows chunk_overlap_def)
  have c3: "start s3 = - 448"
    by (simp add: s3_def start_loop_body c2 dotted_windows chunk_overlap_def)
  have c4: "start s4 = - 598"
    by (simp add: s4_def start_loop_body c3 dotted_windows chunk_overlap_def)
  have c5: "start s5 = - 748"
    by (simp add: s5_def start_loop_body c4 dotted_windows chunk_overlap_def)
  have c6: "start s6 = - 898"
    by (simp add: s6_def start_loop_body c5 dotted_windows chunk_overlap_def)
  have c7: "start s7 = - 1048"
    by (simp add: s7_def start_loop_body c6 dotted_windows chunk_overlap_def)
  have "(loop_body dotted_page ^^ 6) (entry_state 0) = s6"
    by (simp add: s6_def s5_def s4_def s3_def s2_def s1_def eval_nat_numeral)
  with c6 show "start ((loop_body dotted_page ^^ 6) (entry_state 0)) = - 898"
    by simp
  have "(loop_body dotted_page ^^ 7) (entry_state 0) = s7"
    by (simp add: s7_def s6_def s5_def s4_def s3_def s2_def s1_def eval_nat_numeral)
  with c7 show "start ((loop_body dotted_page ^^ 7) (entry_state 0)) = - 1048"
    by simp
qed

text \<open>
  Claim C1 describes the window of every iteration: the tentative window
  \<^verbatim>\<open>text[start : min(start + 800, len(text))]\<close>, shrunk to end right after the
  break character when that lies beyond 560, then trimmed, the cursor advancing by the
  trimmed length minus 150. The code computes exactly this for every cursor from
  \<open>- len(text)\<close> upwards (\<open>window_follows_spec\<close>, \<open>loop_body_follows_spec\<close>).
  Below \<open>- len(text)\<close> it does not: on the page with one period the cursor
  reaches -898 after six iterations; the tentative window is the first 602
  characters with the period at index 600, and the code's shrunk window
  \<^verbatim>\<open>text[start : start + break_point + 1]\<close> holds only the first 403 characters,
  not the 601 that end right after the period.
\<close>

theorem window_below_minus_length:
  "length (page_text dotted_page) = 700
   \<and> reaches [dotted_page] 0 [dotted_page] ((loop_body dotted_page ^^ 6) (entry_state 0))
   \<and> start ((loop_body dotted_page ^^ 6) (entry_state 0)) = - 898
   \<and> slice (page_text dotted_page) (- 898) (- 98) = replicate 600 (CHR '' '') @ ''. ''
   \<and> window (page_text dotted_page) (- 898) = replicate 403 (CHR '' '')
   \<and> spec_window (page_text dotted_page) (- 898) = replicate 600 (CHR '' '') @ ''.''
   \<and> start ((loop_body dotted_page ^^ 7) (entry_state 0)) = - 1048
   \<and> spec_step (page_text dotted_page) (- 898) = (''.'', - 1047)"
proof -
  have len: "length (page_text dotted_page) = 700"
    by (simp add: dotted_page_def)
  have ne: "start (entry_state 0) < int (length (page_text dotted_page))"
    by (simp add: len)
  have r: "reaches [dotted_page] 0 [dotted_page] ((loop_body dotted_page ^^ 6) (entry_state 0))"
    using reaches_iterations [OF reaches.enter ne] by blast
  have tentative: "slice (page_text dotted_page) (- 898) (- 98) =
      replicate 600 (CHR '' '') @ ''. ''"
    by (simp add: dotted_page_def slice_def slice_index_def Let_def)
  have code: "window (page_text dotted_page) (- 898) = replicate 403 (CHR '' '')"
    by (simp add: dotted_page_def window_def Let_def chunk_size_def slice_def slice_index_def
          rfind_append rfind_replicate)
  have spec: "spec_window (page_text dotted_page) (- 898) = replicate 600 (CHR '' '') @ ''.''"
    by (simp add: dotted_page_def spec_window_def spec_break_point_rfind Let_def slice_def
          slice_index_def rfind_append rfind_replicate)
  have "spec_step (page_text dotted_page) (- 898) = (''.'', - 1047)"
    by (simp add: spec_step_def Let_def dotted_spec_window)
  with len r tentative code spec dotted_cursors show ?thesis
    by simp
qed

section \<open>The claims about the classifier\<close>

lemma detect_metadata_page [simp]: "page (detect_metadata t pn) = pn"
  by (simp add: detect_metadata_def Let_def split: prod.splits)

lemma detect_metadata_cascade:
  "detect_metadata t pn =
     (case spec_classify t of
        (to, ta, ro) \<Rightarrow> \<lparr>topic = to, task = ta, role_min = ro, page = pn\<rparr>)"
  by (simp add: detect_metadata_def spec_classify_def spec_rules_def Let_def)

text \<open>
  Claim C2. \<open>detect_metadata\<close> is a function of its arguments alone, defined on
  every string, so it gives exactly one result. The result is that of the first rule,
  in the order of the ten rules, whose pattern matches the lower-cased text: a text
  with a match of the check-in pattern and a match of the report pattern is
  attendance, procedure, 1; a text that no pattern matches is general, reference, 1.
\<close>

theorem classifier_first_match_wins:
  "(\<exists>!m. detect_metadata t pn = m)
   \<and> detect_metadata t pn =
       (case spec_classify t of
          (to, ta, ro) \<Rightarrow> \<lparr>topic = to, task = ta, role_min = ro, page = pn\<rparr>)
   \<and> (re_search re_attendance (lower t) \<and> re_search re_reports (lower t) \<longrightarrow>
        detect_metadata t pn =
          \<lparr>topic = ''attendance'', task = ''procedure'', role_min = 1, page = pn\<rparr>)
   \<and> ((\<forall>rule \<in> set spec_rules. \<not> re_search (fst rule) (lower t)) \<longrightarrow>
        detect_metadata t pn =
          \<lparr>topic = ''general'', task = ''reference'', role_min = 1, page = pn\<rparr>)"
proof (intro conjI impI)
  show "\<exists>!m. detect_metadata t pn = m"
    by simp
  show "detect_metadata t pn =
       (case spec_classify t of
          (to, ta, ro) \<Rightarrow> \<lparr>topic = to, task = ta, role_min = ro, page = pn\<rparr>)"
    by (rule detect_metadata_cascade)
next
  assume "re_search re_attendance (lower t) \<and> re_search re_reports (lower t)"
  then show "detect_metadata t pn =
      \<lparr>topic = ''attendance'', task = ''procedure'', role_min = 1, page = pn\<rparr>"
    by (simp add: detect_metadata_def)
next
  assume "\<forall>rule \<in> set spec_rules. \<not> re_search (fst rule) (lower t)"
  then have "find (\<lambda>rule. re_search (fst rule) (lower t)) spec_rules = None"
    unfolding find_None_iff by blast
  then show "detect_metadata t pn =
      \<lparr>topic = ''general'', task = ''reference'', role_min = 1, page = pn\<rparr>"
    by (simp add: detect_metadata_cascade spec_classify_def)
qed

lemma checkin_report_matches:
  "re_search re_attendance (lower ''Check-in report'')"
  "re_search re_reports (lower ''Check-in report'')"
  by code_simp+

lemma plain_text_matches_nothing:
  "\<forall>rule \<in> set spec_rules. \<not> re_search (fst rule) (lower ''Hello world.'')"
  by code_simp

theorem classifier_first_match_wins_witness:
  "detect_metadata ''Check-in report'' 4 =
     \<lparr>topic = ''attendance'', task = ''procedure'', role_min = 1, page = 4\<rparr>
   \<and> detect_metadata ''Hello world.'' 7 =
     \<lparr>topic = ''general'', task = ''reference'', role_min = 1, page = 7\<rparr>"
  using classifier_first_match_wins [of "''Check-in report''" 4]
    classifier_first_match_wins [of "''Hello world.''" 7]
    checkin_report_matches plain_text_matches_nothing
  by blast

text \<open>
  Claim C10. Whatever the text, the minimum role of the result is 1, 3, 5 or 10, its
  task is one of four values and its topic one of eleven.
\<close>

theorem classifier_range:
  "role_min (detect_metadata t pn) \<in> {1, 3, 5, 10}
   \<and> task (detect_metadata t pn) \<in>
       {''procedure'', ''navigation'', ''reference'', ''troubleshooting''}
   \<and> topic (detect_metadata t pn) \<in>
       {''general'', ''attendance'', ''children'', ''guardians'', ''reports'',
        ''staff_management'', ''email'', ''settings'', ''navigation'', ''troubleshooting'',
        ''overview''}"
proof (intro conjI)
  show "role_min (detect_metadata t pn) \<in> {1, 3, 5, 10}"
    by (simp add: detect_metadata_def Let_def)
  show "task (detect_metadata t pn) \<in>
      {''procedure'', ''navigation'', ''reference'', ''troubleshooting''}"
    by (simp add: detect_metadata_def Let_def)
  show "topic (detect_metadata t pn) \<in>
      {''general'', ''attendance'', ''children'', ''guardians'', ''reports'',
       ''staff_management'', ''email'', ''settings'', ''navigation'', ''troubleshooting'',
       ''overview''}"
    by (simp add: detect_metadata_def Let_def)
qed

section \<open>The claim about the embedder\<close>

lemma truncate_extend [simp]:
  "chunk.truncate (chunk.extend c (embedded_chunk.fields v)) = c"
  by (cases c) (simp add: chunk.defs embedded_chunk.defs metadata.defs)

lemma embedding_extend [simp]:
  "embedding (chunk.extend c (embedded_chunk.fields v)) = v"
  by (cases c) (simp add: chunk.defs embedded_chunk.defs metadata.defs)

lemma id_extend [simp]:
  "id' (chunk.extend c (embedded_chunk.fields v)) = id' c"
  by (cases c) (simp add: chunk.defs embedded_chunk.defs metadata.defs)

lemma extend_truncate:
  "chunk.extend (chunk.truncate e) (embedded_chunk.fields (embedding e)) = (e :: 'v embedded_chunk)"
  by (cases e) (simp add: chunk.defs embedded_chunk.defs metadata.defs)

lemma combine_eq:
  "combine batch data j embeddings =
     (if data = [] \<or> j + length data \<le> length batch
      then Inr (embeddings @
                map2 (\<lambda>c v. chunk.extend c (embedded_chunk.fields v)) (drop j batch) data)
      else Inl (IndexError ''list index out of range''))"
proof (induction data arbitrary: j embeddings)
  case Nil
  show ?case by simp
next
  case (Cons v data)
  show ?case
  proof (cases "j < length batch")
    case True
    then have "drop j batch = batch ! j # drop (Suc j) batch"
      by (simp add: Cons_nth_drop_Suc)
    with True Cons show ?thesis by simp
  next
    case False
    then show ?thesis by simp
  qed
qed


lemma truncate_map2_extend:
  "length data = length batch \<Longrightarrow>
   map chunk.truncate (map2 (\<lambda>c v. chunk.extend c (embedded_chunk.fields v)) batch data) = batch"
  by (induction batch data rule: list_induct2') simp_all

lemma embed_batches_ok:
  assumes api: "\<forall>n texts. \<exists>data. api n texts = Inr data \<and> length data = length texts"
    and dvd: "embedding_batch_size dvd i"
  shows "\<exists>es. embed_batches api cs i acc = Inr (acc @ es)
            \<and> map chunk.truncate es = drop i cs
            \<and> (\<forall>k < length es. \<exists>data.
                 api ((i + k) div embedding_batch_size)
                   (map text' (take embedding_batch_size
                      (drop ((i + k) div embedding_batch_size * embedding_batch_size) cs)))
                   = Inr data
                 \<and> embedding (es ! k) = data ! ((i + k) mod embedding_batch_size))"
  using dvd
proof (induction "length cs - i" arbitrary: i acc rule: less_induct)
  case less
  show ?case
  proof (cases "i < length cs")
    case False
    then show ?thesis
      by (simp add: embed_batches.simps [of api cs i acc])
  next
    case True
    define batch where "batch = take embedding_batch_size (drop i cs)"
    from api obtain data
      where data: "api (i div embedding_batch_size) (map text' batch) = Inr data"
        and len: "length data = length batch"
      by (metis length_map)
    define e1 where "e1 = map2 (\<lambda>c v. chunk.extend c (embedded_chunk.fields v)) batch data"
    have comb: "combine batch data 0 acc = Inr (acc @ e1)"
      by (simp add: combine_eq len e1_def)
    have "length cs - (i + embedding_batch_size) < length cs - i"
      using True by (simp add: embedding_batch_size_def)
    moreover have "embedding_batch_size dvd i + embedding_batch_size"
      using less.prems by simp
    ultimately obtain es'
      where rest: "embed_batches api cs (i + embedding_batch_size) (acc @ e1) = Inr ((acc @ e1) @ es')"
        and tr: "map chunk.truncate es' = drop (i + embedding_batch_size) cs"
        and emb: "\<forall>k < length es'. \<exists>data.
                 api ((i + embedding_batch_size + k) div embedding_batch_size)
                   (map text' (take embedding_batch_size
                      (drop ((i + embedding_batch_size + k) div embedding_batch_size
                             * embedding_batch_size) cs)))
                   = Inr data
                 \<and> embedding (es' ! k) = data ! ((i + embedding_batch_size + k) mod embedding_batch_size)"
      using less.hyps [of "i + embedding_batch_size" "acc @ e1"] by blast
    have run: "embed_batches api cs i acc = Inr (acc @ e1 @ es')"
      using True data comb rest
      by (simp add: embed_batches.simps [of api cs i acc] batch_def [symmetric])
    have trunc: "map chunk.truncate (e1 @ es') = drop i cs"
      using truncate_map2_extend [OF len] tr
      by (simp add: e1_def batch_def add.commute [of i] drop_drop [symmetric] del: drop_drop)
    have le1: "length e1 = length batch"
      by (simp add: e1_def len)
    have pair: "\<exists>data.
        api ((i + k) div embedding_batch_size)
          (map text' (take embedding_batch_size
             (drop ((i + k) div embedding_batch_size * embedding_batch_size) cs)))
          = Inr data
        \<and> embedding ((e1 @ es') ! k) = data ! ((i + k) mod embedding_batch_size)"
      if k: "k < length (e1 @ es')" for k
    proof (cases "k < length e1")
      case True
      then have k100: "k < embedding_batch_size"
        by (simp add: le1 batch_def)
      with less.prems have "(i + k) div embedding_batch_size = i div embedding_batch_size"
        and "(i + k) mod embedding_batch_size = k"
        and "i div embedding_batch_size * embedding_batch_size = i"
        by (auto simp: div_plus_div_distrib_dvd_left mod_add_left_eq [symmetric] elim: dvdE)
      moreover from True have "embedding (e1 ! k) = data ! k"
        by (simp add: e1_def len)
      ultimately show ?thesis
        using data True by (simp add: batch_def nth_append)
    next
      case False
      with k have k': "k - length e1 < length es'" by simp
      then have "es' \<noteq> []" by auto
      then have "drop (i + embedding_batch_size) cs \<noteq> []"
        using tr by auto
      then have "length e1 = embedding_batch_size"
        by (simp add: le1 batch_def)
      with False have shift: "i + embedding_batch_size + (k - length e1) = i + k"
        by simp
      from emb k' obtain data' where
        "api ((i + embedding_batch_size + (k - length e1)) div embedding_batch_size)
           (map text' (take embedding_batch_size
              (drop ((i + embedding_batch_size + (k - length e1)) div embedding_batch_size
                     * embedding_batch_size) cs)))
           = Inr data'"
        and "embedding (es' ! (k - length e1)) =
           data' ! ((i + embedding_batch_size + (k - length e1)) mod embedding_batch_size)"
        by blast
      then show ?thesis
        unfolding shift using False by (auto simp: nth_append)
    qed
    from run trunc pair show ?thesis by blast
  qed
qed


text \<open>
  Claim C8. When the embedding service answers every request with one vector per
  input text, \<open>generate_embeddings\<close> returns, for every list of chunks, a list of
  the same length in the same order: the entry at each position is the chunk at that
  position extended with an embedding, so the ids agree position by position. The
  embedding at position \<open>i\<close> is the vector at position \<open>i mod 100\<close> of the
  answer to the request for the batch that holds the chunk.
\<close>

theorem embedder_keeps_chunks_in_order:
  assumes "\<forall>n texts. \<exists>data. api n texts = Inr data \<and> length data = length texts"
  shows "\<exists>es. generate_embeddings api cs = Inr es
            \<and> length es = length cs
            \<and> map chunk.truncate es = cs
            \<and> (\<forall>i < length cs.
                 id' (es ! i) = id' (cs ! i)
                 \<and> es ! i = chunk.extend (cs ! i) (embedded_chunk.fields (embedding (es ! i)))
                 \<and> (\<exists>data.
                      api (i div embedding_batch_size)
                        (map text' (take embedding_batch_size
                           (drop (i div embedding_batch_size * embedding_batch_size) cs)))
                        = Inr data
                      \<and> embedding (es ! i) = data ! (i mod embedding_batch_size)))"
proof -
  from embed_batches_ok [OF assms, of 0 cs "[]"] obtain es
    where es: "generate_embeddings api cs = Inr es" and tr: "map chunk.truncate es = cs"
      and emb: "\<forall>k < length es. \<exists>data.
                 api (k div embedding_batch_size)
                   (map text' (take embedding_batch_size
                      (drop (k div embedding_batch_size * embedding_batch_size) cs)))
                   = Inr data
                 \<and> embedding (es ! k) = data ! (k mod embedding_batch_size)"
    by (auto simp: generate_embeddings_def)
  from tr have len: "length es = length cs"
    by (metis length_map)
  have "id' (es ! i) = id' (cs ! i)
      \<and> es ! i = chunk.extend (cs ! i) (embedded_chunk.fields (embedding (es ! i)))"
    if "i < length cs" for i
  proof -
    from that len have eq: "chunk.truncate (es ! i) = cs ! i"
      using tr by (metis nth_map)
    have "id' (chunk.truncate (es ! i)) = id' (es ! i)"
      by (simp add: chunk.defs)
    with eq have "id' (es ! i) = id' (cs ! i)"
      by simp
    moreover have "es ! i = chunk.extend (cs ! i) (embedded_chunk.fields (embedding (es ! i)))"
      using extend_truncate [of "es ! i"] unfolding eq by simp
    ultimately show ?thesis ..
  qed
  with es tr len emb show ?thesis by auto
qed

theorem embedder_keeps_chunks_in_order_witness:
  "\<exists>es. generate_embeddings (\<lambda>n texts. Inr (map length texts))
           [\<lparr>topic = ''general'', task = ''reference'', role_min = 1, page = 1,
             id' = ''chunk-0'', text' = ''first''\<rparr>,
            \<lparr>topic = ''reports'', task = ''navigation'', role_min = 5, page = 2,
             id' = ''chunk-1'', text' = ''second one''\<rparr>] = Inr es
        \<and> length es = 2 \<and> id' (es ! 0) = ''chunk-0'' \<and> id' (es ! 1) = ''chunk-1''"
proof -
  let ?api = "\<lambda>(n :: nat) texts. Inr (map length texts) :: pyerror + nat list"
  let ?cs = "[\<lparr>topic = ''general'', task = ''reference'', role_min = 1, page = 1,
             id' = ''chunk-0'', text' = ''first''\<rparr>,
            \<lparr>topic = ''reports'', task = ''navigation'', role_min = 5, page = 2,
             id' = ''chunk-1'', text' = ''second one''\<rparr>]"
  have "\<forall>n texts. \<exists>data. ?api n texts = Inr data \<and> length data = length texts"
    by simp
  from embedder_keeps_chunks_in_order [OF this, of ?cs] obtain es
    where es: "generate_embeddings ?api ?cs = Inr es" and len: "length es = length ?cs"
      and ids: "\<forall>i < length ?cs. id' (es ! i) = id' (?cs ! i)"
    by blast
  from ids have "id' (es ! 0) = id' (?cs ! 0)" and "id' (es ! 1) = id' (?cs ! 1)"
    by simp_all
  with es len show ?thesis
    by simp
qed

section \<open>The claim about the indexer and the driver\<close>

lemma delete_all_vectors_cases:
  "delete_all_vectors svc name =
     (case (case pinecone_Index svc 0 name of Inl e \<Rightarrow> Inl e | Inr u \<Rightarrow> index_delete svc) of
        Inr u \<Rightarrow> Inr [''Index cleared'']
      | Inl e \<Rightarrow>
          if contains ''404'' (message e) then Inr [''Index already empty'']
          else Inr [''Could not delete: '' @ message e,
                    ''Continuing anyway (will overwrite existing vectors)''])"
  by (cases "pinecone_Index svc 0 name"; cases "index_delete svc")
     (simp_all add: delete_all_vectors_def try_except_def)

lemma delete_all_vectors_returns: "\<exists>printed. delete_all_vectors svc name = Inr printed"
  by (cases "pinecone_Index svc 0 name"; cases "index_delete svc")
     (simp_all add: delete_all_vectors_def try_except_def)

lemma upload_batches_cong:
  "index_upsert svc' = index_upsert svc \<Longrightarrow>
   upload_batches svc' vectors i = upload_batches svc vectors i"
proof (induction "length vectors - i" arbitrary: i rule: less_induct)
  case less
  show ?case
  proof (cases "i < length vectors")
    case True
    then have "length vectors - (i + 100) < length vectors - i" by simp
    from less(1) [OF this less(2)] less(2) True show ?thesis
      by (simp add: upload_batches.simps [of svc' vectors i] upload_batches.simps [of svc vectors i]
            split: sum.splits)
  next
    case False
    then show ?thesis
      by (simp add: upload_batches.simps [of svc' vectors i] upload_batches.simps [of svc vectors i])
  qed
qed

lemma main_body_after_clear:
  assumes "\<not> unset (OPENAI_API_KEY env)" "\<not> unset (PINECONE_API_KEY env)"
    "\<not> unset (PINECONE_INDEX_NAME env)"
  shows "main_body env =
     (case extract_text_from_pdf (pdf_reader env) of
        Inl e \<Rightarrow> Some (Inl e)
      | Inr pages \<Rightarrow>
          (case create_chunks pages 0 of
             None \<Rightarrow> None
           | Some (cs, counter) \<Rightarrow>
               (case generate_embeddings (embeddings_create env) cs of
                  Inl e \<Rightarrow> Some (Inl e)
                | Inr embeddings \<Rightarrow>
                    Some (upload_to_pinecone env embeddings (the (PINECONE_INDEX_NAME env))))))"
proof -
  obtain printed where "delete_all_vectors env (the (PINECONE_INDEX_NAME env)) = Inr printed"
    using delete_all_vectors_returns by blast
  with assms show ?thesis
    by (simp add: main_body_def Let_def)
qed


lemma main_eq:
  assumes "\<not> unset (OPENAI_API_KEY env)" "\<not> unset (PINECONE_API_KEY env)"
    "\<not> unset (PINECONE_INDEX_NAME env)"
  shows "main env =
     (case extract_text_from_pdf (pdf_reader env) of
        Inl e \<Rightarrow> Some 1
      | Inr pages \<Rightarrow>
          (case create_chunks pages 0 of
             None \<Rightarrow> None
           | Some (cs, counter) \<Rightarrow>
               (case generate_embeddings (embeddings_create env) cs of
                  Inl e \<Rightarrow> Some 1
                | Inr embeddings \<Rightarrow>
                    (case upload_to_pinecone env embeddings (the (PINECONE_INDEX_NAME env)) of
                       Inl e \<Rightarrow> Some 1
                     | Inr u \<Rightarrow> Some 0))))"
  by (simp add: main_def main_body_after_clear [OF assms] split: sum.splits option.splits)

lemma main_missing_configuration:
  "unset (OPENAI_API_KEY env) \<or> unset (PINECONE_API_KEY env) \<or> unset (PINECONE_INDEX_NAME env)
   \<Longrightarrow> main env = Some 1"
  by (auto simp: main_def main_body_def)

lemma main_ignores_clear:
  "main (env\<lparr>pinecone_Index := (pinecone_Index env)(0 := opened), index_delete := deleted\<rparr>)
     = main env"
proof (cases "unset (OPENAI_API_KEY env) \<or> unset (PINECONE_API_KEY env) \<or>
    unset (PINECONE_INDEX_NAME env)")
  case True
  then show ?thesis
    using main_missing_configuration [of env]
      main_missing_configuration
        [of "env\<lparr>pinecone_Index := (pinecone_Index env)(0 := opened), index_delete := deleted\<rparr>"]
    by simp
next
  case False
  let ?env' = "env\<lparr>pinecone_Index := (pinecone_Index env)(0 := opened), index_delete := deleted\<rparr>"
  have ub: "upload_batches ?env' vs i = upload_batches env vs i" for vs i
    by (rule upload_batches_cong) simp
  have up: "upload_to_pinecone ?env' es name = upload_to_pinecone env es name" for es name
    by (simp add: upload_to_pinecone_def ub split: sum.splits)
  from False show ?thesis
    by (simp add: main_eq up split: sum.splits option.splits prod.splits)
qed

text \<open>
  Claim C9. \<open>delete_all_vectors\<close> always returns to its caller: whether opening
  the index or the deletion raises, the exception is caught; one whose text holds 404
  (the index does not exist) is reported as an index already empty, every other one
  is printed with the note that the run goes on. In \<open>main\<close> the outcome of the
  clear step changes nothing: the exit status with any outcome of it equals the exit
  status without. Every other step ends the run with status 1 when it fails: missing
  configuration, reading the PDF, the embeddings and the upload; the status is 0 only
  when all of them succeed.
\<close>

theorem clear_failure_is_swallowed:
  "(\<exists>printed. delete_all_vectors svc name = Inr printed)
   \<and> (pinecone_Index svc 0 name = Inl e
        \<or> pinecone_Index svc 0 name = Inr () \<and> index_delete svc = Inl e \<longrightarrow>
        delete_all_vectors svc name =
          (if contains ''404'' (message e) then Inr [''Index already empty'']
           else Inr [''Could not delete: '' @ message e,
                     ''Continuing anyway (will overwrite existing vectors)'']))
   \<and> main (env\<lparr>pinecone_Index := (pinecone_Index env)(0 := opened), index_delete := deleted\<rparr>)
        = main env
   \<and> (unset (OPENAI_API_KEY env) \<or> unset (PINECONE_API_KEY env)
        \<or> unset (PINECONE_INDEX_NAME env) \<longrightarrow> main env = Some 1)
   \<and> (\<not> unset (OPENAI_API_KEY env) \<and> \<not> unset (PINECONE_API_KEY env)
        \<and> \<not> unset (PINECONE_INDEX_NAME env) \<longrightarrow>
        main env =
          (case extract_text_from_pdf (pdf_reader env) of
             Inl e \<Rightarrow> Some 1
           | Inr pages \<Rightarrow>
               (case create_chunks pages 0 of
                  None \<Rightarrow> None
                | Some (cs, counter) \<Rightarrow>
                    (case generate_embeddings (embeddings_create env) cs of
                       Inl e \<Rightarrow> Some 1
                     | Inr embeddings \<Rightarrow>
                         (case upload_to_pinecone env embeddings
                                 (the (PINECONE_INDEX_NAME env)) of
                            Inl e \<Rightarrow> Some 1
                          | Inr u \<Rightarrow> Some 0)))))"
proof (intro conjI impI)
  show "\<exists>printed. delete_all_vectors svc name = Inr printed"
    by (rule delete_all_vectors_returns)
next
  assume "pinecone_Index svc 0 name = Inl e
      \<or> pinecone_Index svc 0 name = Inr () \<and> index_delete svc = Inl e"
  then show "delete_all_vectors svc name =
      (if contains ''404'' (message e) then Inr [''Index already empty'']
       else Inr [''Could not delete: '' @ message e,
                 ''Continuing anyway (will overwrite existing vectors)''])"
    by (auto simp: delete_all_vectors_cases)
next
  show "main (env\<lparr>pinecone_Index := (pinecone_Index env)(0 := opened), index_delete := deleted\<rparr>)
      = main env"
    by (rule main_ignores_clear)
next
  assume "unset (OPENAI_API_KEY env) \<or> unset (PINECONE_API_KEY env)
      \<or> unset (PINECONE_INDEX_NAME env)"
  then show "main env = Some 1"
    by (rule main_missing_configuration)
next
  assume "\<not> unset (OPENAI_API_KEY env) \<and> \<not> unset (PINECONE_API_KEY env)
      \<and> \<not> unset (PINECONE_INDEX_NAME env)"
  then show "main env =
      (case extract_text_from_pdf (pdf_reader env) of
         Inl e \<Rightarrow> Some 1
       | Inr pages \<Rightarrow>
           (case create_chunks pages 0 of
              None \<Rightarrow> None
            | Some (cs, counter) \<Rightarrow>
                (case generate_embeddings (embeddings_create env) cs of
                   Inl e \<Rightarrow> Some 1
                 | Inr embeddings \<Rightarrow>
                     (case upload_to_pinecone env embeddings
                             (the (PINECONE_INDEX_NAME env)) of
                        Inl e \<Rightarrow> Some 1
                      | Inr u \<Rightarrow> Some 0))))"
    by (simp add: main_eq)
qed

lemma example_clear:
  "delete_all_vectors example_environment ''manual'' =
     Inr [''Could not delete: (500) Internal Server Error'',
          ''Continuing anyway (will overwrite existing vectors)'']"
  by (simp add: delete_all_vectors_def try_except_def example_environment_def)

lemma example_pages: "extract_text_from_pdf (pdf_reader example_environment) = Inr []"
  by (simp add: extract_text_from_pdf_def example_environment_def enumerate_eq_zip strip_def
        isspace_def)

lemma example_configured:
  "\<not> unset (OPENAI_API_KEY example_environment)"
  "\<not> unset (PINECONE_API_KEY example_environment)"
  "\<not> unset (PINECONE_INDEX_NAME example_environment)"
  by (simp_all add: unset_def example_environment_def)

lemma example_later_stages:
  "create_chunks [] 0 = Some ([], 0)"
  "generate_embeddings (embeddings_create example_environment) [] = Inr []"
  "upload_to_pinecone example_environment [] name = Inr ()"
  by (simp_all add: create_chunks_eq generate_embeddings_def embed_batches.simps
        upload_to_pinecone_def upload_batches.simps example_environment_def)

theorem clear_failure_is_swallowed_witness:
  "delete_all_vectors example_environment ''manual'' =
     Inr [''Could not delete: (500) Internal Server Error'',
          ''Continuing anyway (will overwrite existing vectors)'']
   \<and> main example_environment = Some 0
   \<and> main (example_environment\<lparr>pinecone_Index := (pinecone_Index example_environment)
          (0 := \<lambda>name. Inr ()), index_delete := Inl (ServiceError ''(404) Not Found'')\<rparr>) = Some 0
   \<and> main (example_environment\<lparr>OPENAI_API_KEY := None\<rparr>) = Some 1"
proof -
  note inst = clear_failure_is_swallowed [where svc = example_environment
      and name = "''manual''" and e = "ServiceError ''(500) Internal Server Error''"
      and env = example_environment and opened = "\<lambda>name. Inr ()"
      and deleted = "Inl (ServiceError ''(404) Not Found'')"]
  have failed: "pinecone_Index example_environment 0 ''manual'' =
      Inl (ServiceError ''(500) Internal Server Error'')"
    by (simp add: example_environment_def)
  have "\<not> contains ''404'' (message (ServiceError ''(500) Internal Server Error''))"
    by simp
  with inst failed have cleared: "delete_all_vectors example_environment ''manual'' =
     Inr [''Could not delete: (500) Internal Server Error'',
          ''Continuing anyway (will overwrite existing vectors)'']"
    by simp
  from inst example_configured have ok: "main example_environment = Some 0"
    by (simp add: example_pages example_later_stages)
  with inst have "main (example_environment\<lparr>pinecone_Index := (pinecone_Index example_environment)
          (0 := \<lambda>name. Inr ()), index_delete := Inl (ServiceError ''(404) Not Found'')\<rparr>) = Some 0"
    by simp
  moreover have "unset (OPENAI_API_KEY (example_environment\<lparr>OPENAI_API_KEY := None\<rparr>))"
    by (simp add: unset_def)
  with clear_failure_is_swallowed [where env = "example_environment\<lparr>OPENAI_API_KEY := None\<rparr>"]
  have "main (example_environment\<lparr>OPENAI_API_KEY := None\<rparr>) = Some 1"
    by blast
  ultimately show ?thesis
    using cleared ok by blast
qed

end
